theory Spec2Isabelle
  imports Main "HOL-Library.Word"
begin

unbundle bit_operations_syntax

section \<open>Basic types\<close>

type_synonym byte = "8 word"
type_synonym uint16 = "16 word"
type_synonym int32 = "32 word"
type_synonym uint64 = "64 word"

text \<open>
  Go's \<^verbatim>\<open>int\<close> has 64 bits on the platforms of 64 bits, which are the ones modelled;
  \<open>sint\<close> reads its value.
\<close>

type_synonym go_int = "64 word"

text \<open>A run-time panic of the Go runtime (not an error value).\<close>

datatype panic = IndexOutOfRange | MakesliceLenOutOfRange

section \<open>encoding/binary: PutUvarint\<close>

definition MaxVarintLen32 :: nat where
  "MaxVarintLen32 = 5"

definition MaxVarintLen64 :: nat where
  "MaxVarintLen64 = 10"

text \<open>
  \<^verbatim>\<open>
  func PutUvarint(buf []byte, x uint64) int {
      i := 0
      for x >= 0x80 {
          buf[i] = byte(x) | 0x80
          x >>= 7
          i++
      }
      buf[i] = byte(x)
      return i + 1
  }
  \<close>
  An index beyond the slice panics; the model makes that a result.
\<close>

function PutUvarint_loop :: "byte list \<Rightarrow> nat \<Rightarrow> uint64 \<Rightarrow> panic + (byte list \<times> nat)" where
  "PutUvarint_loop buf i x =
     (if x \<ge> 0x80 then
        (if i < length buf
         then PutUvarint_loop (buf[i := ucast x OR 0x80]) (i + 1) (drop_bit 7 x)
         else Inl IndexOutOfRange)
      else
        (if i < length buf then Inr (buf[i := ucast x], i + 1)
         else Inl IndexOutOfRange))"
  by pat_completeness auto
termination
proof (relation "measure (\<lambda>(buf, i, x). unat x)")
  show "wf (measure (\<lambda>(buf, i, x). unat x))" by simp
next
  fix buf :: "byte list" and i :: nat and x :: uint64
  assume "0x80 \<le> x"
  then have "128 \<le> unat x" by (simp add: word_le_nat_alt)
  then have "unat x div 128 < unat x" by simp
  then show "((buf[i := ucast x OR 0x80], i + 1, drop_bit 7 x), (buf, i, x))
      \<in> measure (\<lambda>(buf, i, x). unat x)"
    by (simp add: unat_drop_bit_eq drop_bit_eq_div unat_div)
qed

declare PutUvarint_loop.simps [simp del]

definition PutUvarint :: "byte list \<Rightarrow> uint64 \<Rightarrow> panic + (byte list \<times> nat)" where
  "PutUvarint buf x = PutUvarint_loop buf 0 x"


section \<open>bytes.Buffer and putVarInt\<close>

text \<open>
  A \<^verbatim>\<open>bytes.Buffer\<close> that is only written to is the list of the bytes written so far.
  \<^verbatim>\<open>
  func putVarInt(buf *bytes.Buffer, value int32) {
      bytes := make([]byte, binary.MaxVarintLen32)
      bytesWritten := binary.PutUvarint(bytes, uint64(value))
      buf.Write(bytes[:bytesWritten])
  }
  \<close>
  The conversion \<^verbatim>\<open>uint64(value)\<close> of an \<^verbatim>\<open>int32\<close> extends the sign: it is \<open>scast\<close>.
\<close>

definition putVarInt :: "byte list \<Rightarrow> int32 \<Rightarrow> panic + byte list" where
  "putVarInt buf v =
     (case PutUvarint (replicate MaxVarintLen32 0) (scast v) of
        Inl p \<Rightarrow> Inl p
      | Inr (bytes, bytesWritten) \<Rightarrow> Inr (buf @ take bytesWritten bytes))"

section \<open>The connection and its buffered reader\<close>

text \<open>
  Go's error values, as far as this program can return them: errors of the network
  (\<^verbatim>\<open>*net.OpError\<close>, among them the timeout of a passed deadline), the sentinels of
  \<^verbatim>\<open>io\<close>, the overflow error of \<^verbatim>\<open>encoding/binary\<close>, the error that \<^verbatim>\<open>Ping\<close> builds
  with \<^verbatim>\<open>fmt.Errorf\<close> for a packet ID other than 0, and the errors of \<^verbatim>\<open>encoding/json\<close>.
\<close>

datatype net_error = ErrDeadlineExceeded | ErrConnection string

datatype error =
    EOF
  | ErrUnexpectedEOF
  | ErrNoProgress
  | errOverflow
  | OpError net_error
  | ErrInvalidPacketId uint64
  | SyntaxError
  | UnmarshalTypeError

text \<open>
  The connection as \<^verbatim>\<open>Ping\<close> sees it. \<open>incoming\<close> are the segments the peer sends, in
  order: one \<^verbatim>\<open>Read\<close> returns bytes of the first segment only (at most as many as the
  caller's slice holds), so a read can be short. When no segment is left, \<^verbatim>\<open>Read\<close> fails:
  with \<^verbatim>\<open>io.EOF\<close> when the peer closed the connection (\<open>read_end = None\<close>), with a
  network error otherwise (the deadline passed, the connection was reset).
  \<open>write_errs\<close> are the results of the \<^verbatim>\<open>Write\<close> calls to come (\<open>None\<close> is success),
  \<open>written\<close> the slices passed to \<^verbatim>\<open>Write\<close> so far, \<open>closed\<close> whether \<^verbatim>\<open>Close\<close> was called.
\<close>

record conn =
  incoming :: "byte list list"
  read_end :: "net_error option"
  write_errs :: "net_error option list"
  written :: "byte list list"
  closed :: bool

definition read_err :: "conn \<Rightarrow> error" where
  "read_err c = (case read_end c of None \<Rightarrow> EOF | Some e \<Rightarrow> OpError e)"

text \<open>A blocking read waits for data: an empty segment delivers nothing and is skipped.\<close>

fun read_segments :: "nat \<Rightarrow> byte list list \<Rightarrow> (byte list \<times> byte list list) option" where
  "read_segments n [] = None"
| "read_segments n (seg # segs) =
     (if seg = [] then read_segments n segs
      else Some (take n seg, drop n seg # segs))"

definition conn_Read :: "nat \<Rightarrow> conn \<Rightarrow> error + (byte list \<times> conn)" where
  "conn_Read n c =
     (case read_segments n (incoming c) of
        None \<Rightarrow> Inl (read_err c)
      | Some (data, segs) \<Rightarrow> Inr (data, c\<lparr>incoming := segs\<rparr>))"

definition conn_Write :: "byte list \<Rightarrow> conn \<Rightarrow> error option \<times> conn" where
  "conn_Write p c =
     (case write_errs c of
        [] \<Rightarrow> (None, c\<lparr>written := written c @ [p]\<rparr>)
      | e # es \<Rightarrow> (map_option OpError e, c\<lparr>written := written c @ [p], write_errs := es\<rparr>))"

definition conn_Close :: "conn \<Rightarrow> conn" where
  "conn_Close c = c\<lparr>closed := True\<rparr>"

text \<open>
  \<^verbatim>\<open>bufio.Reader\<close>: \<open>buf\<close> is the unread part \<^verbatim>\<open>b.buf[b.r:b.w]\<close> of its buffer of
  \<^verbatim>\<open>defaultBufSize\<close> bytes, \<open>rd\<close> the underlying connection.
\<close>

record Reader =
  buf :: "byte list"
  rd :: conn

definition defaultBufSize :: nat where
  "defaultBufSize = 4096"

definition NewReader :: "conn \<Rightarrow> Reader" where
  "NewReader c = \<lparr>buf = [], rd = c\<rparr>"

text \<open>
  \<^verbatim>\<open>
  func (b *Reader) ReadByte() (byte, error) {
      for b.r == b.w {
          if b.err != nil { return 0, b.readErr() }
          b.fill() // buffer is empty
      }
      c := b.buf[b.r]
      b.r++
      return c, nil
  }
  \<close>
  \<^verbatim>\<open>fill\<close> reads once into the whole (empty) buffer; an error of that read is returned
  by the next turn of the loop. \<^verbatim>\<open>fill\<close> gives up with \<^verbatim>\<open>ErrNoProgress\<close> on reads
  that return neither data nor an error, which this connection never does.
\<close>

definition ReadByte :: "Reader \<Rightarrow> error + (byte \<times> Reader)" where
  "ReadByte b =
     (case buf b of
        c # cs \<Rightarrow> Inr (c, b\<lparr>buf := cs\<rparr>)
      | [] \<Rightarrow>
         (case conn_Read defaultBufSize (rd b) of
            Inl err \<Rightarrow> Inl err
          | Inr (data, c') \<Rightarrow>
             (case data of
                [] \<Rightarrow> Inl ErrNoProgress
              | c # cs \<Rightarrow> Inr (c, \<lparr>buf = cs, rd = c'\<rparr>))))"

section \<open>encoding/binary: ReadUvarint\<close>

text \<open>
  \<^verbatim>\<open>
  func ReadUvarint(r io.ByteReader) (uint64, error) {
      var x uint64
      var s uint
      for i := 0; i < MaxVarintLen64; i++ {
          b, err := r.ReadByte()
          if err != nil {
              if i > 0 && err == io.EOF { err = io.ErrUnexpectedEOF }
              return x, err
          }
          if b < 0x80 {
              if i == MaxVarintLen64-1 && b > 1 { return x, errOverflow }
              return x | uint64(b)<<s, nil
          }
          x |= uint64(b&0x7f) << s
          s += 7
      }
      return x, errOverflow
  }
  \<close>
  This is the function of the Go releases since 1.19. (Releases before 1.19 return
  \<^verbatim>\<open>io.EOF\<close> within a varint too, and releases before 1.15 read on beyond ten bytes
  before they report the overflow.)
\<close>

function ReadUvarint_loop :: "nat \<Rightarrow> uint64 \<Rightarrow> nat \<Rightarrow> Reader \<Rightarrow> error + (uint64 \<times> Reader)" where
  "ReadUvarint_loop i x s r =
     (if i < MaxVarintLen64 then
        (case ReadByte r of
           Inl err \<Rightarrow> Inl (if i > 0 \<and> err = EOF then ErrUnexpectedEOF else err)
         | Inr (b, r') \<Rightarrow>
            if b < 0x80 then
              (if i = MaxVarintLen64 - 1 \<and> b > 1 then Inl errOverflow
               else Inr (x OR push_bit s (ucast b), r'))
            else ReadUvarint_loop (i + 1) (x OR push_bit s (ucast (b AND 0x7f))) (s + 7) r')
      else Inl errOverflow)"
  by pat_completeness auto
termination
  by (relation "measure (\<lambda>(i, x, s, r). MaxVarintLen64 - i)") auto

declare ReadUvarint_loop.simps [simp del]

definition ReadUvarint :: "Reader \<Rightarrow> error + (uint64 \<times> Reader)" where
  "ReadUvarint r = ReadUvarint_loop 0 0 0 r"

text \<open>What a reader still has to deliver: the buffered bytes, then the segments to come.\<close>

definition remaining :: "Reader \<Rightarrow> byte list" where
  "remaining b = buf b @ concat (incoming (rd b))"


text \<open>
  \<^verbatim>\<open>func (b *Reader) Read(p []byte) (n int, err error)\<close>, with \<open>n\<close> for \<^verbatim>\<open>len(p)\<close>:
  an empty \<open>p\<close> reads nothing; with an empty buffer, a \<open>p\<close> of at least the buffer's size
  is filled by one read of the connection, a smaller \<open>p\<close> after one read into the buffer;
  otherwise the buffered bytes are copied, as many as fit. Never more than one read of the
  connection.
\<close>

definition Read :: "nat \<Rightarrow> Reader \<Rightarrow> error + (byte list \<times> Reader)" where
  "Read n b =
     (if n = 0 then Inr ([], b)
      else if buf b = [] then
        (if n \<ge> defaultBufSize then
           (case conn_Read n (rd b) of
              Inl err \<Rightarrow> Inl err
            | Inr (data, c') \<Rightarrow> Inr (data, b\<lparr>rd := c'\<rparr>))
         else
           (case conn_Read defaultBufSize (rd b) of
              Inl err \<Rightarrow> Inl err
            | Inr (data, c') \<Rightarrow> Inr (take n data, \<lparr>buf = drop n data, rd = c'\<rparr>)))
      else Inr (take n (buf b), b\<lparr>buf := drop n (buf b)\<rparr>))"

section \<open>io.ReadFull\<close>

text \<open>
  \<^verbatim>\<open>
  func ReadAtLeast(r Reader, buf []byte, min int) (n int, err error) {
      if len(buf) < min { return 0, ErrShortBuffer }
      for n < min && err == nil {
          var nn int
          nn, err = r.Read(buf[n:])
          n += nn
      }
      if n >= min {
          err = nil
      } else if n > 0 && err == EOF {
          err = ErrUnexpectedEOF
      }
      return
  }
  func ReadFull(r Reader, buf []byte) (n int, err error) {
      return ReadAtLeast(r, buf, len(buf))
  }
  \<close>
  \<open>got\<close> is \<^verbatim>\<open>buf[:n]\<close>, the bytes read so far, \<open>minimum\<close> is \<^verbatim>\<open>min\<close>. The loop ends
  because every read of the connection that returns no error returns at least one byte.
\<close>

function ReadAtLeast_loop :: "Reader \<Rightarrow> byte list \<Rightarrow> nat \<Rightarrow> error + (byte list \<times> Reader)" where
  "ReadAtLeast_loop r got minimum =
     (if length got < minimum then
        (case Read (minimum - length got) r of
           Inl err \<Rightarrow> Inl (if length got > 0 \<and> err = EOF then ErrUnexpectedEOF else err)
         | Inr (data, r') \<Rightarrow> ReadAtLeast_loop r' (got @ data) minimum)
      else Inr (got, r))"
  by pat_completeness auto
termination
proof (relation "measure (\<lambda>(r, got, minimum). minimum - length got)")
  show "wf (measure (\<lambda>(r, got, minimum). minimum - length got))" by simp
next
  fix r :: Reader and got :: "byte list" and minimum :: nat and x data r'
  assume lt: "length got < minimum"
    and rd: "Read (minimum - length got) r = Inr x"
    and x: "(data, r') = x"
  have segs: "data \<noteq> []"
    if "read_segments n segs = Some (data, segs')" "0 < n"
    for n segs segs' and data :: "byte list"
    using that by (induction segs) (auto split: if_splits)
  have conn: "data \<noteq> []"
    if "conn_Read n c = Inr (data, c')" "0 < n" for n c c' data
    using that segs [of n "incoming c" data]
    by (auto simp: conn_Read_def split: option.splits)
  from lt have pos: "0 < minimum - length got" by simp
  have "data \<noteq> []"
  proof (cases "buf r = []")
    case False
    with rd x pos show ?thesis by (auto simp: Read_def)
  next
    case True
    show ?thesis
    proof (cases "minimum - length got \<ge> defaultBufSize")
      case True
      with \<open>buf r = []\<close> rd x pos conn [of "minimum - length got" "rd r"] show ?thesis
        by (auto simp: Read_def split: sum.splits)
    next
      case False
      with \<open>buf r = []\<close> rd x pos conn [of defaultBufSize "rd r"] show ?thesis
        by (auto simp: Read_def defaultBufSize_def split: sum.splits)
    qed
  qed
  with lt show "((r', got @ data, minimum), (r, got, minimum)) \<in> measure (\<lambda>(r, got, minimum). minimum - length got)"
    by (cases data) auto
qed

declare ReadAtLeast_loop.simps [simp del]

definition ReadFull :: "Reader \<Rightarrow> nat \<Rightarrow> error + (byte list \<times> Reader)" where
  "ReadFull r n = ReadAtLeast_loop r [] n"

section \<open>The packets sent\<close>

text \<open>A Go string is its bytes: \<^verbatim>\<open>len\<close> counts them and \<^verbatim>\<open>WriteString\<close> writes them.\<close>

definition string_bytes :: "string \<Rightarrow> byte list" where
  "string_bytes s = map of_char s"

text \<open>
  \<^verbatim>\<open>binary.Write(&buf, binary.BigEndian, port)\<close> writes the two bytes of the
  \<^verbatim>\<open>uint16\<close>, most significant first.
\<close>

definition BigEndian_uint16 :: "uint16 \<Rightarrow> byte list" where
  "BigEndian_uint16 v = [ucast (drop_bit 8 v), ucast v]"

text \<open>
  \<^verbatim>\<open>
  func makeHandshakePacket(address string, port uint16, protocolVersion int) []byte {
      var buf bytes.Buffer
      buf.Write([]byte("\x00"))
      putVarInt(&buf, int32(protocolVersion))
      putVarInt(&buf, int32(len(address)))
      buf.WriteString(address)
      binary.Write(&buf, binary.BigEndian, port)
      putVarInt(&buf, 1)
      // Prepend the buffer with it's length as a uvarint
      var out bytes.Buffer
      putVarInt(&out, int32(buf.Len()))
      out.Write(buf.Bytes())
      return out.Bytes()
  }
  \<close>
  The conversion of an \<^verbatim>\<open>int\<close> to \<^verbatim>\<open>int32\<close> keeps the low 32 bits. A panic of
  \<^verbatim>\<open>putVarInt\<close> ends the function.
\<close>

definition makeHandshakePacket :: "string \<Rightarrow> uint16 \<Rightarrow> go_int \<Rightarrow> panic + byte list" where
  "makeHandshakePacket address port protocolVersion =
     (case putVarInt [0x00] (ucast protocolVersion) of
        Inl p \<Rightarrow> Inl p
      | Inr buf1 \<Rightarrow>
     (case putVarInt buf1 (of_nat (length address)) of
        Inl p \<Rightarrow> Inl p
      | Inr buf2 \<Rightarrow>
     (case putVarInt (buf2 @ string_bytes address @ BigEndian_uint16 port) 1 of
        Inl p \<Rightarrow> Inl p
      | Inr buf3 \<Rightarrow>
     (case putVarInt [] (of_nat (length buf3)) of
        Inl p \<Rightarrow> Inl p
      | Inr out \<Rightarrow> Inr (out @ buf3)))))"

text \<open>
  \<^verbatim>\<open>var requestPacket = []byte{1, 0}\<close>, and the function of the older file that builds
  the same slice at every call.
\<close>

definition requestPacket :: "byte list" where
  "requestPacket = [1, 0]"

definition makeRequestPacket :: "unit \<Rightarrow> byte list" where
  "makeRequestPacket _ = [1, 0]"

section \<open>Reading the response\<close>

text \<open>
  What ends a call: an error value that is returned, or a panic of the runtime.
\<close>

datatype fault = Error error | Panic panic

text \<open>
  \<^verbatim>\<open>make([]byte, length)\<close> with \<open>length\<close> a \<^verbatim>\<open>uint64\<close>: the length is converted to
  \<^verbatim>\<open>int\<close> and handed to \<^verbatim>\<open>runtime.makeslice\<close>, with the size of an element 1:
  \<^verbatim>\<open>
      mem, overflow := math.MulUintptr(et.Size_, uintptr(cap))
      if overflow || mem > maxAlloc || len < 0 || len > cap {
          ...
          panicmakeslicelen()
      }
      return mallocgc(mem, et, true)
  \<close>
  \<^verbatim>\<open>maxAlloc\<close> is the runtime's limit for one allocation, \<open>2 ^ 48\<close> bytes where an
  \<^verbatim>\<open>int\<close> has 64 bits (\<^verbatim>\<open>heapAddrBits\<close> is 48 on linux/amd64). A length within the limit
  gives a slice of that many zero bytes: the memory for it is taken to be there.
\<close>

definition maxAlloc :: nat where
  "maxAlloc = 2 ^ 48"

definition makeslice :: "uint64 \<Rightarrow> panic + byte list" where
  "makeslice len = (if unat len > maxAlloc \<or> sint len < 0 then Inl MakesliceLenOutOfRange
                    else Inr (replicate (unat len) 0))"

text \<open>
  The part of \<^verbatim>\<open>Ping\<close> that reads the response from the buffered reader, up to the
  payload:
  \<^verbatim>\<open>
      // Read and discard the length of the incoming packet.
      _, err = binary.ReadUvarint(reader)
      if err != nil { return resp, err }
      // Read the packet ID and validate it as 0.
      packetId, err := binary.ReadUvarint(reader)
      if err != nil { return resp, err }
      if packetId != 0 {
          return resp, fmt.Errorf("received invalid packetId (expected 0!) %d", packetId)
      }
      length, err := binary.ReadUvarint(reader)
      if err != nil { return resp, err }
      payload := make([]byte, length)
      if _, err = io.ReadFull(reader, payload); err != nil { return resp, err }
  \<close>
\<close>

definition Ping_readPayload :: "Reader \<Rightarrow> fault + byte list" where
  "Ping_readPayload reader =
     (case ReadUvarint reader of
        Inl err \<Rightarrow> Inl (Error err)
      | Inr (_, reader1) \<Rightarrow>
     (case ReadUvarint reader1 of
        Inl err \<Rightarrow> Inl (Error err)
      | Inr (packetId, reader2) \<Rightarrow>
     if packetId \<noteq> 0 then Inl (Error (ErrInvalidPacketId packetId))
     else
     (case ReadUvarint reader2 of
        Inl err \<Rightarrow> Inl (Error err)
      | Inr (len, reader3) \<Rightarrow>
     (case makeslice len of
        Inl p \<Rightarrow> Inl (Panic p)
      | Inr payload \<Rightarrow>
     (case ReadFull reader3 (length payload) of
        Inl err \<Rightarrow> Inl (Error err)
      | Inr (payload', _) \<Rightarrow> Inr payload')))))"

section \<open>encoding/json: the scanner\<close>

text \<open>
  A JSON value as \<^verbatim>\<open>encoding/json\<close> reads it. A number keeps its literal, a string the
  bytes between its quotes (escapes not yet resolved), and the member of an object the
  offsets of its value's text in the input, from the first byte to behind the last
  (\<^verbatim>\<open>json.RawMessage\<close> receives that text).
\<close>

datatype json =
    JNull
  | JTrue
  | JFalse
  | JNumber "byte list"
  | JString "byte list"
  | JArray "json list"
  | JObject "(byte list \<times> nat \<times> nat \<times> json) list"

text \<open>
  The scanner of \<^verbatim>\<open>scanner.go\<close> is a state machine that takes one byte at a time. Its
  states are the step functions of the source (\<^verbatim>\<open>stateInStringEscU\<close> to
  \<^verbatim>\<open>stateInStringEscU123\<close> are \<open>stateInStringEscU\<close> with the number of hex digits read;
  \<^verbatim>\<open>stateT\<close>, \<^verbatim>\<open>stateTr\<close>, ..., \<^verbatim>\<open>stateNul\<close> are \<open>stateLiteral\<close> with the bytes still
  expected and the value they spell).
\<close>

datatype scan_state =
    stateBeginValue
  | stateBeginValueOrEmpty
  | stateBeginString
  | stateBeginStringOrEmpty
  | stateEndValue
  | stateEndTop
  | stateInString
  | stateInStringEsc
  | stateInStringEscU nat
  | stateNeg
  | state0
  | state1
  | stateDot
  | stateDot0
  | stateE
  | stateESign
  | stateE0
  | stateLiteral "byte list" json

text \<open>
  The entries of the scanner's stack \<^verbatim>\<open>parseState\<close>, one for each array or object that
  is open, here with what has been read of it: the offset of its opening bracket, its
  elements or members so far, and for an object where the scanner is in a member:
  before or in the key (\<open>parseObjectKey\<close>), behind the key and before the colon
  (\<open>parseObjectColon\<close>), in the value (\<open>parseObjectValue\<close>), or behind the value
  (\<open>parseObjectNext\<close>). The source has \<^verbatim>\<open>parseObjectKey\<close> for the first two and
  \<^verbatim>\<open>parseObjectValue\<close> for the last two, and tells them apart by the step function.
\<close>

datatype parse_entry =
    parseArrayValue nat "json list"
  | parseObjectKey nat "(byte list \<times> nat \<times> nat \<times> json) list"
  | parseObjectColon nat "(byte list \<times> nat \<times> nat \<times> json) list" "byte list"
  | parseObjectValue nat "(byte list \<times> nat \<times> nat \<times> json) list" "byte list"
  | parseObjectNext nat "(byte list \<times> nat \<times> nat \<times> json) list"

text \<open>
  \<open>tok\<close> are the bytes of the string or number being read, \<open>tok_start\<close> the offset of
  its first byte, \<open>off\<close> the offset of the byte being taken, \<open>top_value\<close> the
  top-level value once it is complete.
\<close>

record scanner =
  step :: scan_state
  parseState :: "parse_entry list"
  tok :: "byte list"
  tok_start :: nat
  off :: nat
  top_value :: "json option"

definition maxNestingDepth :: nat where
  "maxNestingDepth = 10000"

definition isSpace :: "byte \<Rightarrow> bool" where
  "isSpace c \<longleftrightarrow> c = 0x20 \<or> c = 0x09 \<or> c = 0x0D \<or> c = 0x0A"

definition isDigit :: "byte \<Rightarrow> bool" where
  "isDigit c \<longleftrightarrow> 0x30 \<le> c \<and> c \<le> 0x39"

definition isHex :: "byte \<Rightarrow> bool" where
  "isHex c \<longleftrightarrow> (0x30 \<le> c \<and> c \<le> 0x39) \<or> (0x61 \<le> c \<and> c \<le> 0x66) \<or> (0x41 \<le> c \<and> c \<le> 0x46)"

text \<open>
  A value is complete, its text going from offset \<open>start\<close> to before \<open>end\<close>: it is the
  top-level value, the next element of the open array, the key of the open object's next
  member, or the value of that member.
\<close>

definition value_done :: "json \<Rightarrow> nat \<Rightarrow> nat \<Rightarrow> scanner \<Rightarrow> scanner option" where
  "value_done v start end s =
     (case parseState s of
        [] \<Rightarrow> Some (s\<lparr>step := stateEndValue, top_value := Some v\<rparr>)
      | parseArrayValue st els # ps \<Rightarrow>
          Some (s\<lparr>step := stateEndValue, parseState := parseArrayValue st (els @ [v]) # ps\<rparr>)
      | parseObjectKey st ms # ps \<Rightarrow>
          (case v of
             JString key \<Rightarrow>
               Some (s\<lparr>step := stateEndValue, parseState := parseObjectColon st ms key # ps\<rparr>)
           | _ \<Rightarrow> None)
      | parseObjectValue st ms key # ps \<Rightarrow>
          Some (s\<lparr>step := stateEndValue,
                  parseState := parseObjectNext st (ms @ [(key, start, end, v)]) # ps\<rparr>)
      | _ \<Rightarrow> None)"

text \<open>
  \<^verbatim>\<open>pushParseState\<close>: an array or an object opens, at the offset of the byte being taken;
  an error beyond \<^verbatim>\<open>maxNestingDepth\<close>.
\<close>

definition pushParseState :: "parse_entry \<Rightarrow> scan_state \<Rightarrow> scanner \<Rightarrow> scanner option" where
  "pushParseState e next s =
     (if length (parseState s) + 1 > maxNestingDepth then None
      else Some (s\<lparr>step := next, parseState := e # parseState s\<rparr>))"

text \<open>
  \<^verbatim>\<open>stateEndValue\<close>: behind a value. At the top level only space may follow. In an
  object, a colon follows the key, and a comma or the closing brace the value; in an
  array, a comma or the closing bracket follows an element. A closing bracket completes
  the array or object, which ends behind it.
\<close>

definition stateEndValue_step :: "byte \<Rightarrow> scanner \<Rightarrow> scanner option" where
  "stateEndValue_step c s =
     (case parseState s of
        [] \<Rightarrow> if isSpace c then Some (s\<lparr>step := stateEndTop\<rparr>) else None
      | e # ps \<Rightarrow>
          if isSpace c then Some (s\<lparr>step := stateEndValue\<rparr>)
          else
            (case e of
               parseObjectColon st ms key \<Rightarrow>
                 if c = 0x3A
                 then Some (s\<lparr>step := stateBeginValue, parseState := parseObjectValue st ms key # ps\<rparr>)
                 else None
             | parseObjectNext st ms \<Rightarrow>
                 if c = 0x2C
                 then Some (s\<lparr>step := stateBeginString, parseState := parseObjectKey st ms # ps\<rparr>)
                 else if c = 0x7D
                 then value_done (JObject ms) st (off s + 1) (s\<lparr>parseState := ps\<rparr>)
                 else None
             | parseArrayValue st els \<Rightarrow>
                 if c = 0x2C then Some (s\<lparr>step := stateBeginValue\<rparr>)
                 else if c = 0x5D
                 then value_done (JArray els) st (off s + 1) (s\<lparr>parseState := ps\<rparr>)
                 else None
             | _ \<Rightarrow> None))"

text \<open>\<^verbatim>\<open>stateBeginValue\<close>: at the beginning of a value, space skipped.\<close>

definition stateBeginValue_step :: "byte \<Rightarrow> scanner \<Rightarrow> scanner option" where
  "stateBeginValue_step c s =
     (if isSpace c then Some s
      else if c = 0x7B then pushParseState (parseObjectKey (off s) []) stateBeginStringOrEmpty s
      else if c = 0x5B then pushParseState (parseArrayValue (off s) []) stateBeginValueOrEmpty s
      else if c = 0x22 then Some (s\<lparr>step := stateInString, tok := [], tok_start := off s\<rparr>)
      else if c = 0x2D then Some (s\<lparr>step := stateNeg, tok := [c], tok_start := off s\<rparr>)
      else if c = 0x30 then Some (s\<lparr>step := state0, tok := [c], tok_start := off s\<rparr>)
      else if c = 0x74 then Some (s\<lparr>step := stateLiteral [0x72, 0x75, 0x65] JTrue, tok_start := off s\<rparr>)
      else if c = 0x66 then Some (s\<lparr>step := stateLiteral [0x61, 0x6C, 0x73, 0x65] JFalse, tok_start := off s\<rparr>)
      else if c = 0x6E then Some (s\<lparr>step := stateLiteral [0x75, 0x6C, 0x6C] JNull, tok_start := off s\<rparr>)
      else if 0x31 \<le> c \<and> c \<le> 0x39 then Some (s\<lparr>step := state1, tok := [c], tok_start := off s\<rparr>)
      else None)"

definition stateBeginString_step :: "byte \<Rightarrow> scanner \<Rightarrow> scanner option" where
  "stateBeginString_step c s =
     (if isSpace c then Some s
      else if c = 0x22 then Some (s\<lparr>step := stateInString, tok := [], tok_start := off s\<rparr>)
      else None)"

text \<open>A number ends before the byte \<open>c\<close>, which \<^verbatim>\<open>stateEndValue\<close> then takes.\<close>

definition number_done :: "byte \<Rightarrow> scanner \<Rightarrow> scanner option" where
  "number_done c s =
     (case value_done (JNumber (tok s)) (tok_start s) (off s) s of
        None \<Rightarrow> None
      | Some s' \<Rightarrow> stateEndValue_step c s')"

text \<open>The byte belongs to the string or number being read.\<close>

definition take_byte :: "scan_state \<Rightarrow> byte \<Rightarrow> scanner \<Rightarrow> scanner option" where
  "take_byte next c s = Some (s\<lparr>step := next, tok := tok s @ [c]\<rparr>)"

text \<open>One step of the scanner: the step function of the state, applied to the byte.\<close>

definition scan_byte :: "byte \<Rightarrow> scanner \<Rightarrow> scanner option" where
  "scan_byte c s =
     (case step s of
        stateBeginValue \<Rightarrow> stateBeginValue_step c s
      | stateBeginValueOrEmpty \<Rightarrow>
          if isSpace c then Some s
          else if c = 0x5D then stateEndValue_step c s
          else stateBeginValue_step c s
      | stateBeginString \<Rightarrow> stateBeginString_step c s
      | stateBeginStringOrEmpty \<Rightarrow>
          if isSpace c then Some s
          else if c = 0x7D then
            (case parseState s of
               parseObjectKey st ms # ps \<Rightarrow>
                 stateEndValue_step c (s\<lparr>parseState := parseObjectNext st ms # ps\<rparr>)
             | _ \<Rightarrow> None)
          else stateBeginString_step c s
      | stateEndValue \<Rightarrow> stateEndValue_step c s
      | stateEndTop \<Rightarrow> if isSpace c then Some s else None
      | stateInString \<Rightarrow>
          if c = 0x22 then value_done (JString (tok s)) (tok_start s) (off s + 1) s
          else if c = 0x5C then take_byte stateInStringEsc c s
          else if c < 0x20 then None
          else take_byte stateInString c s
      | stateInStringEsc \<Rightarrow>
          if c = 0x62 \<or> c = 0x66 \<or> c = 0x6E \<or> c = 0x72 \<or> c = 0x74 \<or> c = 0x5C \<or> c = 0x2F \<or> c = 0x22
          then take_byte stateInString c s
          else if c = 0x75 then take_byte (stateInStringEscU 0) c s
          else None
      | stateInStringEscU n \<Rightarrow>
          if isHex c then take_byte (if n < 3 then stateInStringEscU (n + 1) else stateInString) c s
          else None
      | stateNeg \<Rightarrow>
          if c = 0x30 then take_byte state0 c s
          else if 0x31 \<le> c \<and> c \<le> 0x39 then take_byte state1 c s
          else None
      | state1 \<Rightarrow>
          if isDigit c then take_byte state1 c s
          else if c = 0x2E then take_byte stateDot c s
          else if c = 0x65 \<or> c = 0x45 then take_byte stateE c s
          else number_done c s
      | state0 \<Rightarrow>
          if c = 0x2E then take_byte stateDot c s
          else if c = 0x65 \<or> c = 0x45 then take_byte stateE c s
          else number_done c s
      | stateDot \<Rightarrow> if isDigit c then take_byte stateDot0 c s else None
      | stateDot0 \<Rightarrow>
          if isDigit c then take_byte stateDot0 c s
          else if c = 0x65 \<or> c = 0x45 then take_byte stateE c s
          else number_done c s
      | stateE \<Rightarrow>
          if c = 0x2B \<or> c = 0x2D then take_byte stateESign c s
          else if isDigit c then take_byte stateE0 c s
          else None
      | stateESign \<Rightarrow> if isDigit c then take_byte stateE0 c s else None
      | stateE0 \<Rightarrow> if isDigit c then take_byte stateE0 c s else number_done c s
      | stateLiteral expected v \<Rightarrow>
          (case expected of
             [] \<Rightarrow> None
           | e # es \<Rightarrow>
               if c \<noteq> e then None
               else if es = [] then value_done v (tok_start s) (off s + 1) s
               else Some (s\<lparr>step := stateLiteral es v\<rparr>)))"

text \<open>
  \<^verbatim>\<open>checkValid\<close> steps through the input; at its end the scanner takes a space, which
  completes a number, and the input is valid when the top-level value is complete. The
  decoder then scans the same bytes again; here the one pass hands it the value.
\<close>

fun scan_bytes :: "byte list \<Rightarrow> scanner \<Rightarrow> scanner option" where
  "scan_bytes [] s = Some s"
| "scan_bytes (c # cs) s =
     (case scan_byte c s of
        None \<Rightarrow> None
      | Some s' \<Rightarrow> scan_bytes cs (s'\<lparr>off := off s' + 1\<rparr>))"

definition scanner_reset :: scanner where
  "scanner_reset =
     \<lparr>step = stateBeginValue, parseState = [], tok = [], tok_start = 0, off = 0, top_value = None\<rparr>"

definition checkValid :: "byte list \<Rightarrow> json option" where
  "checkValid data =
     (case scan_bytes data scanner_reset of
        None \<Rightarrow> None
      | Some s \<Rightarrow>
          (case scan_byte 0x20 s of
             None \<Rightarrow> None
           | Some s' \<Rightarrow> top_value s'))"

section \<open>encoding/json: decoding into the Response\<close>

text \<open>
  \<^verbatim>\<open>utf8.EncodeRune\<close>: a surrogate and a rune beyond \<^verbatim>\<open>U+10FFFF\<close> are written as
  \<^verbatim>\<open>U+FFFD\<close>.
\<close>

definition RuneError :: "byte list" where
  "RuneError = [0xEF, 0xBF, 0xBD]"

definition EncodeRune :: "nat \<Rightarrow> byte list" where
  "EncodeRune r =
     (if r \<le> 0x7F then [of_nat r]
      else if r \<le> 0x7FF then [of_nat (0xC0 + r div 64), of_nat (0x80 + r mod 64)]
      else if r > 0x10FFFF \<or> (0xD800 \<le> r \<and> r \<le> 0xDFFF) then RuneError
      else if r \<le> 0xFFFF then
        [of_nat (0xE0 + r div 4096), of_nat (0x80 + r div 64 mod 64), of_nat (0x80 + r mod 64)]
      else
        [of_nat (0xF0 + r div 262144), of_nat (0x80 + r div 4096 mod 64),
         of_nat (0x80 + r div 64 mod 64), of_nat (0x80 + r mod 64)])"

text \<open>
  The number of bytes of the UTF-8 sequence at the head of the bytes, as
  \<^verbatim>\<open>utf8.DecodeRune\<close> accepts it (its table \<^verbatim>\<open>first\<close> and its \<^verbatim>\<open>acceptRanges\<close>);
  0 when there is none. The head is not ASCII.
\<close>

definition cont :: "byte \<Rightarrow> bool" where
  "cont b \<longleftrightarrow> 0x80 \<le> b \<and> b \<le> 0xBF"

fun utf8_size :: "byte list \<Rightarrow> nat" where
  "utf8_size (c # b1 # b2 # b3 # _) =
     (if 0xC2 \<le> c \<and> c \<le> 0xDF then (if cont b1 then 2 else 0)
      else if c = 0xE0 then (if 0xA0 \<le> b1 \<and> b1 \<le> 0xBF \<and> cont b2 then 3 else 0)
      else if c = 0xED then (if 0x80 \<le> b1 \<and> b1 \<le> 0x9F \<and> cont b2 then 3 else 0)
      else if 0xE1 \<le> c \<and> c \<le> 0xEF then (if cont b1 \<and> cont b2 then 3 else 0)
      else if c = 0xF0 then (if 0x90 \<le> b1 \<and> b1 \<le> 0xBF \<and> cont b2 \<and> cont b3 then 4 else 0)
      else if c = 0xF4 then (if 0x80 \<le> b1 \<and> b1 \<le> 0x8F \<and> cont b2 \<and> cont b3 then 4 else 0)
      else if 0xF1 \<le> c \<and> c \<le> 0xF3 then (if cont b1 \<and> cont b2 \<and> cont b3 then 4 else 0)
      else 0)"
| "utf8_size [c, b1, b2] =
     (if 0xC2 \<le> c \<and> c \<le> 0xDF then (if cont b1 then 2 else 0)
      else if c = 0xE0 then (if 0xA0 \<le> b1 \<and> b1 \<le> 0xBF \<and> cont b2 then 3 else 0)
      else if c = 0xED then (if 0x80 \<le> b1 \<and> b1 \<le> 0x9F \<and> cont b2 then 3 else 0)
      else if 0xE1 \<le> c \<and> c \<le> 0xEF then (if cont b1 \<and> cont b2 then 3 else 0)
      else 0)"
| "utf8_size [c, b1] = (if 0xC2 \<le> c \<and> c \<le> 0xDF \<and> cont b1 then 2 else 0)"
| "utf8_size _ = 0"

text \<open>\<^verbatim>\<open>getu4\<close>: the value of \<^verbatim>\<open>\uXXXX\<close> at the head of the bytes.\<close>

definition hexval :: "byte \<Rightarrow> nat" where
  "hexval c =
     (if 0x30 \<le> c \<and> c \<le> 0x39 then unat (c - 0x30)
      else if 0x61 \<le> c \<and> c \<le> 0x66 then unat (c - 0x61) + 10
      else unat (c - 0x41) + 10)"

definition getu4 :: "byte list \<Rightarrow> nat option" where
  "getu4 s =
     (case s of
        b0 # b1 # h0 # h1 # h2 # h3 # _ \<Rightarrow>
          if b0 = 0x5C \<and> b1 = 0x75 \<and> isHex h0 \<and> isHex h1 \<and> isHex h2 \<and> isHex h3
          then Some (((hexval h0 * 16 + hexval h1) * 16 + hexval h2) * 16 + hexval h3)
          else None
      | _ \<Rightarrow> None)"

definition unescape :: "byte \<Rightarrow> byte" where
  "unescape e =
     (if e = 0x62 then 0x08 else if e = 0x66 then 0x0C else if e = 0x6E then 0x0A
      else if e = 0x72 then 0x0D else if e = 0x74 then 0x09 else e)"

text \<open>
  \<^verbatim>\<open>unquoteBytes\<close>, on the bytes between the quotes of a string the scanner accepted:
  escapes are resolved, a \<^verbatim>\<open>\u\<close> escape to the UTF-8 of its rune (two escapes that are
  a surrogate pair to the rune of the pair, a surrogate alone to \<^verbatim>\<open>U+FFFD\<close>), and bytes
  that are not UTF-8 become \<^verbatim>\<open>U+FFFD\<close>, one for each.
\<close>

function unquote :: "byte list \<Rightarrow> byte list" where
  "unquote [] = []"
| "unquote (c # s) =
     (if c = 0x5C then
        (case s of
           [] \<Rightarrow> []
         | e # s' \<Rightarrow>
             if e = 0x75 then
               (case getu4 (c # s) of
                  None \<Rightarrow> []
                | Some rr \<Rightarrow>
                    if 0xD800 \<le> rr \<and> rr < 0xE000 then
                      (case getu4 (drop 4 s') of
                         None \<Rightarrow> RuneError @ unquote (drop 4 s')
                       | Some rr1 \<Rightarrow>
                           if rr < 0xDC00 \<and> 0xDC00 \<le> rr1 \<and> rr1 < 0xE000
                           then EncodeRune ((rr - 0xD800) * 1024 + (rr1 - 0xDC00) + 0x10000)
                                  @ unquote (drop 10 s')
                           else RuneError @ unquote (drop 4 s'))
                    else EncodeRune rr @ unquote (drop 4 s'))
             else unescape e # unquote s')
      else if c < 0x80 then c # unquote s
      else if utf8_size (c # s) = 0 then RuneError @ unquote s
      else take (utf8_size (c # s)) (c # s) @ unquote (drop (utf8_size (c # s)) (c # s)))"
  by pat_completeness auto
termination
  by (relation "measure length") auto

declare unquote.simps [simp del]

text \<open>
  \<^verbatim>\<open>foldName\<close>: a key matches the name of a field if they are equal under Unicode's
  simple case folding. The names of the fields are ASCII letters, \<open>K\<close> and \<open>S\<close> are the
  only ones of them that a rune beyond ASCII folds to (the Kelvin sign \<^verbatim>\<open>U+212A\<close> and the
  long s \<^verbatim>\<open>U+017F\<close>), and the folding of the other runes beyond ASCII, which never
  gives ASCII, is left out.
\<close>

fun foldName :: "byte list \<Rightarrow> byte list" where
  "foldName [] = []"
| "foldName (c # s) =
     (if c = 0xC5 \<and> take 1 s = [0xBF] then 0x53 # foldName (drop 1 s)
      else if c = 0xE2 \<and> take 2 s = [0x84, 0xAA] then 0x4B # foldName (drop 2 s)
      else if 0x61 \<le> c \<and> c \<le> 0x7A then (c - 0x20) # foldName s
      else c # foldName s)"

text \<open>
  \<^verbatim>\<open>strconv.ParseInt(string(item), 10, 64)\<close> on the literal of a number the scanner
  accepted: it fails on a fraction or an exponent, and on a value outside of 64 bits.
\<close>

definition digits_value :: "byte list \<Rightarrow> int" where
  "digits_value ds = foldl (\<lambda>a d. 10 * a + int (unat (d - 0x30))) 0 ds"

definition ParseInt :: "byte list \<Rightarrow> int option" where
  "ParseInt item =
     (let neg = (take 1 item = [0x2D]);
          ds = (if neg then drop 1 item else item);
          n = (if neg then - digits_value ds else digits_value ds)
      in if ds \<noteq> [] \<and> list_all isDigit ds \<and> - (2 ^ 63) \<le> n \<and> n \<le> 2 ^ 63 - 1
         then Some n else None)"

text \<open>
  \<^verbatim>\<open>
  type Response struct {
      Version struct {
          Name     string `json:"name"`
          Protocol int    `json:"protocol"`
      } `json:"version"`
      Players struct {
          Max    int `json:"max"`
          Online int `json:"online"`
          Sample []struct {
              Name string `json:"name"`
              Id   string `json:"id"`
          } `json:"sample"`
      } `json:"players"`
      Description json.RawMessage `json:"description"`
      Favicon     string          `json:"favicon"`
  }
  \<close>
  A string is its bytes, an \<^verbatim>\<open>int\<close> an integer of 64 bits, and a \<^verbatim>\<open>json.RawMessage\<close>
  its bytes (one that was stored to is never empty: the empty list is \<^verbatim>\<open>nil\<close>).

  A slice is \<^verbatim>\<open>nil\<close>, or it has an array behind it, of which its length makes the first
  elements its own. The decoder shortens a slice and extends it again over the same
  array, so what lies behind the length matters. Of the array the model holds the
  elements that were the slice's own at some time; the capacity beyond them holds zero
  values, and how much of it there is depends on how the library grows a slice.
\<close>

type_synonym go_string = "byte list"

datatype 'a slice = nil_slice | Slice "'a list" nat

definition backing :: "'a slice \<Rightarrow> 'a list" where
  "backing s = (case s of nil_slice \<Rightarrow> [] | Slice arr n \<Rightarrow> arr)"

text \<open>The elements of a slice, \<^verbatim>\<open>s[0]\<close> to \<^verbatim>\<open>s[len(s)-1]\<close>.\<close>

definition elems :: "'a slice \<Rightarrow> 'a list" where
  "elems s = (case s of nil_slice \<Rightarrow> [] | Slice arr n \<Rightarrow> take n arr)"

record Response_Version =
  Version_Name :: go_string
  Version_Protocol :: int

record Response_Sample =
  Sample_Name :: go_string
  Sample_Id :: go_string

record Response_Players =
  Players_Max :: int
  Players_Online :: int
  Players_Sample :: "Response_Sample slice"

record Response =
  Version :: Response_Version
  Players :: Response_Players
  Description :: "byte list"
  Favicon :: go_string

text \<open>The zero values, what \<^verbatim>\<open>var resp Response\<close> holds.\<close>

definition zero_Sample :: Response_Sample where
  "zero_Sample = \<lparr>Sample_Name = [], Sample_Id = []\<rparr>"

definition zero_Response :: Response where
  "zero_Response =
     \<lparr>Version = \<lparr>Version_Name = [], Version_Protocol = 0\<rparr>,
      Players = \<lparr>Players_Max = 0, Players_Online = 0, Players_Sample = nil_slice\<rparr>,
      Description = [],
      Favicon = []\<rparr>"

text \<open>
  The decoder stores a value into a variable of the type of a field and goes on after a
  value that does not fit the type: it keeps the first \<^verbatim>\<open>UnmarshalTypeError\<close> and
  returns it at the end. Each function here returns the variable's new value and
  whether the value fitted. \<^verbatim>\<open>null\<close> leaves a string, an integer and a struct as
  they are and makes a slice \<^verbatim>\<open>nil\<close>.
\<close>

definition store_string :: "json \<Rightarrow> go_string \<Rightarrow> go_string \<times> bool" where
  "store_string v old =
     (case v of
        JString s \<Rightarrow> (unquote s, True)
      | JNull \<Rightarrow> (old, True)
      | _ \<Rightarrow> (old, False))"

definition store_int :: "json \<Rightarrow> int \<Rightarrow> int \<times> bool" where
  "store_int v old =
     (case v of
        JNumber item \<Rightarrow> (case ParseInt item of Some n \<Rightarrow> (n, True) | None \<Rightarrow> (old, False))
      | JNull \<Rightarrow> (old, True)
      | _ \<Rightarrow> (old, False))"

text \<open>
  \<^verbatim>\<open>func (d *decodeState) object(v reflect.Value)\<close> for a struct: the members in their
  order, each stored by \<open>field\<close> into the field that its key names (a key that names no
  field is skipped); anything but an object or \<^verbatim>\<open>null\<close> does not fit.
\<close>

fun object_members ::
  "(byte list \<Rightarrow> nat \<Rightarrow> nat \<Rightarrow> json \<Rightarrow> 'a \<Rightarrow> 'a \<times> bool)
     \<Rightarrow> (byte list \<times> nat \<times> nat \<times> json) list \<Rightarrow> 'a \<Rightarrow> 'a \<times> bool" where
  "object_members field [] x = (x, True)"
| "object_members field ((key, start, end, v) # ms) x =
     (case field (unquote key) start end v x of
        (x', ok) \<Rightarrow>
          (case object_members field ms x' of
             (x'', ok') \<Rightarrow> (x'', ok \<and> ok')))"

definition store_struct ::
  "(byte list \<Rightarrow> nat \<Rightarrow> nat \<Rightarrow> json \<Rightarrow> 'a \<Rightarrow> 'a \<times> bool) \<Rightarrow> json \<Rightarrow> 'a \<Rightarrow> 'a \<times> bool" where
  "store_struct field v old =
     (case v of
        JObject ms \<Rightarrow> object_members field ms old
      | JNull \<Rightarrow> (old, True)
      | _ \<Rightarrow> (old, False))"

text \<open>A key names the field whose name it is, exactly or under \<open>foldName\<close>.\<close>

definition names_field :: "byte list \<Rightarrow> string \<Rightarrow> bool" where
  "names_field key name \<longleftrightarrow>
     key = string_bytes name \<or> foldName key = foldName (string_bytes name)"

definition Version_field ::
  "byte list \<Rightarrow> nat \<Rightarrow> nat \<Rightarrow> json \<Rightarrow> Response_Version \<Rightarrow> Response_Version \<times> bool" where
  "Version_field key start end v x =
     (if names_field key ''name'' then
        (case store_string v (Version_Name x) of (s, ok) \<Rightarrow> (x\<lparr>Version_Name := s\<rparr>, ok))
      else if names_field key ''protocol'' then
        (case store_int v (Version_Protocol x) of (n, ok) \<Rightarrow> (x\<lparr>Version_Protocol := n\<rparr>, ok))
      else (x, True))"

definition Sample_field ::
  "byte list \<Rightarrow> nat \<Rightarrow> nat \<Rightarrow> json \<Rightarrow> Response_Sample \<Rightarrow> Response_Sample \<times> bool" where
  "Sample_field key start end v x =
     (if names_field key ''name'' then
        (case store_string v (Sample_Name x) of (s, ok) \<Rightarrow> (x\<lparr>Sample_Name := s\<rparr>, ok))
      else if names_field key ''id'' then
        (case store_string v (Sample_Id x) of (s, ok) \<Rightarrow> (x\<lparr>Sample_Id := s\<rparr>, ok))
      else (x, True))"

text \<open>
  \<^verbatim>\<open>func (d *decodeState) array(v reflect.Value)\<close> for the slice of samples:
  \<^verbatim>\<open>
      i := 0
      for {
          // Look ahead for ] - can only happen on first iteration.
          ...
          // Expand slice length, growing the slice if necessary.
          if v.Kind() == reflect.Slice {
              if i >= v.Cap() { v.Grow(1) }
              if i >= v.Len() { v.SetLen(i + 1) }
          }
          if i < v.Len() {
              // Decode into element.
              if err := d.value(v.Index(i)); err != nil { return err }
          }
          ...
          i++
          ...
      }
      if i < v.Len() {
          ... v.SetLen(i) // truncate the slice
      }
      if i == 0 && v.Kind() == reflect.Slice {
          v.Set(reflect.MakeSlice(v.Type(), 0, 0))
      }
  \<close>
  Each element of the array is decoded into the element that the slice's memory holds at
  its index: what an earlier array of the same payload left there (a second member
  \<^verbatim>\<open>"sample"\<close> of an object finds in an element, and keeps where it names no field,
  what the first one stored), or the zero value beyond that. \<open>array_elements\<close> goes
  through the elements of the array and the memory together and returns the memory as it
  is afterwards. The slice's length is then the number of elements of the array; the
  empty array gives a new slice with no memory, \<^verbatim>\<open>null\<close> gives \<^verbatim>\<open>nil\<close>, and anything
  else does not fit and leaves the slice as it is.
\<close>

fun array_elements :: "json list \<Rightarrow> Response_Sample list \<Rightarrow> Response_Sample list \<times> bool" where
  "array_elements [] arr = (arr, True)"
| "array_elements (e # els) arr =
     (case store_struct Sample_field e (case arr of [] \<Rightarrow> zero_Sample | x # _ \<Rightarrow> x) of
        (x', ok) \<Rightarrow>
          (case array_elements els (tl arr) of
             (arr', ok') \<Rightarrow> (x' # arr', ok \<and> ok')))"

definition store_samples ::
  "json \<Rightarrow> Response_Sample slice \<Rightarrow> Response_Sample slice \<times> bool" where
  "store_samples v old =
     (case v of
        JArray els \<Rightarrow>
          if els = [] then (Slice [] 0, True)
          else (case array_elements els (backing old) of
                  (arr, ok) \<Rightarrow> (Slice arr (length els), ok))
      | JNull \<Rightarrow> (nil_slice, True)
      | _ \<Rightarrow> (old, False))"

definition Players_field ::
  "byte list \<Rightarrow> nat \<Rightarrow> nat \<Rightarrow> json \<Rightarrow> Response_Players \<Rightarrow> Response_Players \<times> bool" where
  "Players_field key start end v x =
     (if names_field key ''max'' then
        (case store_int v (Players_Max x) of (n, ok) \<Rightarrow> (x\<lparr>Players_Max := n\<rparr>, ok))
      else if names_field key ''online'' then
        (case store_int v (Players_Online x) of (n, ok) \<Rightarrow> (x\<lparr>Players_Online := n\<rparr>, ok))
      else if names_field key ''sample'' then
        (case store_samples v (Players_Sample x) of (l, ok) \<Rightarrow> (x\<lparr>Players_Sample := l\<rparr>, ok))
      else (x, True))"

text \<open>
  The fields of the \<open>Response\<close>. \<^verbatim>\<open>json.RawMessage\<close> is an \<^verbatim>\<open>Unmarshaler\<close>: it takes the
  text of the value as it stands in the input \<open>data\<close>, whatever the value, \<^verbatim>\<open>null\<close>
  too.
\<close>

definition Response_field ::
  "byte list \<Rightarrow> byte list \<Rightarrow> nat \<Rightarrow> nat \<Rightarrow> json \<Rightarrow> Response \<Rightarrow> Response \<times> bool" where
  "Response_field data key start end v x =
     (if names_field key ''version'' then
        (case store_struct Version_field v (Version x) of (y, ok) \<Rightarrow> (x\<lparr>Version := y\<rparr>, ok))
      else if names_field key ''players'' then
        (case store_struct Players_field v (Players x) of (y, ok) \<Rightarrow> (x\<lparr>Players := y\<rparr>, ok))
      else if names_field key ''description'' then
        (x\<lparr>Description := take (end - start) (drop start data)\<rparr>, True)
      else if names_field key ''favicon'' then
        (case store_string v (Favicon x) of (s, ok) \<Rightarrow> (x\<lparr>Favicon := s\<rparr>, ok))
      else (x, True))"

text \<open>
  \<^verbatim>\<open>
  func Unmarshal(data []byte, v any) error {
      var d decodeState
      err := checkValid(data, &d.scan)
      if err != nil { return err }
      d.init(data)
      return d.unmarshal(v)
  }
  \<close>
  with \<open>v\<close> the address of a \<open>Response\<close>: the \<open>Response\<close> as it is afterwards, and the
  error. An input that is not JSON leaves the \<open>Response\<close> as it was.
\<close>

definition Unmarshal :: "byte list \<Rightarrow> Response \<Rightarrow> Response \<times> error option" where
  "Unmarshal data resp =
     (case checkValid data of
        None \<Rightarrow> (resp, Some SyntaxError)
      | Some v \<Rightarrow>
          (case store_struct (Response_field data) v resp of
             (resp', ok) \<Rightarrow> (resp', if ok then None else Some UnmarshalTypeError)))"

section \<open>Ping\<close>

text \<open>\<^verbatim>\<open>strconv.Itoa\<close>: the decimal digits of an integer, \<open>-\<close> before a negative one.\<close>

function digits :: "nat \<Rightarrow> string" where
  "digits n = (if n < 10 then [char_of (48 + n)] else digits (n div 10) @ [char_of (48 + n mod 10)])"
  by pat_completeness auto
termination
  by (relation "measure id") auto

declare digits.simps [simp del]

definition Itoa :: "int \<Rightarrow> string" where
  "Itoa i = (if i < 0 then CHR ''-'' # digits (nat (- i)) else digits (nat i))"

text \<open>
  The network as \<^verbatim>\<open>Ping\<close> meets it: what \<^verbatim>\<open>net.DialTimeout("tcp", addr, timeout)\<close>
  gives for an address and a timeout (in nanoseconds), an error or a connection, and
  what \<^verbatim>\<open>conn.SetDeadline\<close> returns on that connection.
\<close>

record network =
  DialTimeout :: "string \<Rightarrow> int \<Rightarrow> net_error + conn"
  SetDeadline :: "net_error option"

text \<open>
  What a call leaves: the values it returns (or the panic that ends it), and the
  connection as it is afterwards, when one was opened, with the slices written to it and
  whether it was closed. (What was read from it is not recorded there.)
\<close>

record Ping_result =
  returned :: "panic + (Response \<times> error option)"
  connection :: "conn option"

text \<open>
  \<^verbatim>\<open>
  func Ping(address string, port uint16, protocolVersion int, timeout time.Duration) (Response, error) {
      var resp Response
      deadline := time.Now().Add(timeout)
      conn, err := net.DialTimeout("tcp", address+":"+strconv.Itoa(int(port)), timeout)
      if err != nil { return resp, err }
      defer conn.Close()
      if err := conn.SetDeadline(deadline); err != nil { return resp, err }
      handshake := makeHandshakePacket(address, port, protocolVersion)
      conn.Write(handshake)
      conn.Write(requestPacket)
      reader := bufio.NewReader(conn)
      ...                                   // Ping_readPayload
      if err = json.Unmarshal(payload, &resp); err != nil { return resp, err }
      return resp, nil
  }
  \<close>
  The results of the two \<^verbatim>\<open>Write\<close> calls are dropped, as in the source. The deferred
  \<^verbatim>\<open>Close\<close> runs at every return and at a panic.
\<close>

definition Ping :: "string \<Rightarrow> uint16 \<Rightarrow> go_int \<Rightarrow> int \<Rightarrow> network \<Rightarrow> Ping_result" where
  "Ping address port protocolVersion timeout net =
     (let resp = zero_Response in
      case DialTimeout net (address @ '':'' @ Itoa (uint port)) timeout of
        Inl err \<Rightarrow> \<lparr>returned = Inr (resp, Some (OpError err)), connection = None\<rparr>
      | Inr conn \<Rightarrow>
     (case SetDeadline net of
        Some err \<Rightarrow>
          \<lparr>returned = Inr (resp, Some (OpError err)), connection = Some (conn_Close conn)\<rparr>
      | None \<Rightarrow>
     (case makeHandshakePacket address port protocolVersion of
        Inl p \<Rightarrow> \<lparr>returned = Inl p, connection = Some (conn_Close conn)\<rparr>
      | Inr handshake \<Rightarrow>
     (let conn1 = snd (conn_Write handshake conn);
          conn2 = snd (conn_Write requestPacket conn1);
          reader = NewReader conn2
      in case Ping_readPayload reader of
           Inl (Panic p) \<Rightarrow> \<lparr>returned = Inl p, connection = Some (conn_Close conn2)\<rparr>
         | Inl (Error err) \<Rightarrow>
             \<lparr>returned = Inr (resp, Some err), connection = Some (conn_Close conn2)\<rparr>
         | Inr payload \<Rightarrow>
             \<lparr>returned = Inr (Unmarshal payload resp), connection = Some (conn_Close conn2)\<rparr>))))"

section \<open>Notions used to state the properties\<close>

text \<open>
  The varint encoding following the specification (section 4.1), not the code: the value is cut into groups of
  7 bits, least significant group first; each byte carries one group in its low bits, and
  its high bit is set unless the group is the last one. The theorems below relate the
  code's \<open>putVarInt\<close> and \<open>ReadUvarint\<close> to it.
\<close>

function encodeVarint :: "nat \<Rightarrow> byte list" where
  "encodeVarint n =
     (if n < 128 then [of_nat n]
      else of_nat ((n AND 0x7F) OR 0x80) # encodeVarint (drop_bit 7 n))"
  by pat_completeness auto
termination
  by (relation "measure id") (auto simp: drop_bit_eq_div)

declare encodeVarint.simps [simp del]

text \<open>
  The Handshake packet as the specification gives it (sections 3 and 6): packet ID
  \<^verbatim>\<open>0x00\<close>, the protocol version as a varint, the length of the address as a varint, the
  bytes of the address, the port as 2 bytes, most significant first, and the varint 1.
\<close>

definition handshake_body :: "string \<Rightarrow> uint16 \<Rightarrow> nat \<Rightarrow> byte list" where
  "handshake_body address port protocolVersion =
     [0x00] @ encodeVarint protocolVersion @ encodeVarint (length address) @ string_bytes address
       @ [of_nat (unat port div 256), of_nat (unat port mod 256)] @ encodeVarint 1"

text \<open>Two states of a reader over the same connection, apart from the data delivered.\<close>

definition same_conn :: "Reader \<Rightarrow> Reader \<Rightarrow> bool" where
  "same_conn r r' \<longleftrightarrow>
     read_end (rd r') = read_end (rd r) \<and> write_errs (rd r') = write_errs (rd r) \<and>
     written (rd r') = written (rd r) \<and> closed (rd r') = closed (rd r)"

text \<open>A connection that delivers the given segments and is then closed by the peer.\<close>

definition example_conn :: "byte list list \<Rightarrow> conn" where
  "example_conn segs =
     \<lparr>incoming = segs, read_end = None, write_errs = [], written = [], closed = False\<rparr>"

text \<open>
  A connection on which both writes fail with a broken pipe while a well-formed response,
  with the payload \<^verbatim>\<open>{}\<close>, is there to be read; and a network that gives this connection.
\<close>

definition failing_writes_conn :: conn where
  "failing_writes_conn =
     \<lparr>incoming = [[0x04, 0x00, 0x02, 0x7B, 0x7D]], read_end = None,
      write_errs = [Some (ErrConnection ''broken pipe''), Some (ErrConnection ''broken pipe'')],
      written = [], closed = False\<rparr>"

definition failing_writes_network :: network where
  "failing_writes_network = \<lparr>DialTimeout = (\<lambda>addr timeout. Inr failing_writes_conn), SetDeadline = None\<rparr>"

text \<open>A network whose connection delivers a response with the payload \<^verbatim>\<open>[]\<close>.\<close>

definition array_payload_network :: network where
  "array_payload_network =
     \<lparr>DialTimeout = (\<lambda>addr timeout. Inr (example_conn [[0x04, 0x00, 0x02, 0x5B, 0x5D]])),
      SetDeadline = None\<rparr>"

text \<open>
  The members of an object and the elements of an array, and the empty list for any other
  value; the value of a member; and whether the key of a member names a field.
\<close>

type_synonym member = "byte list \<times> nat \<times> nat \<times> json"

definition object_of :: "json \<Rightarrow> member list" where
  "object_of v = (case v of JObject ms \<Rightarrow> ms | _ \<Rightarrow> [])"

definition array_of :: "json \<Rightarrow> json list" where
  "array_of v = (case v of JArray els \<Rightarrow> els | _ \<Rightarrow> [])"

definition member_value :: "member \<Rightarrow> json" where
  "member_value m = snd (snd (snd m))"

definition names :: "string \<Rightarrow> member \<Rightarrow> bool" where
  "names name m \<longleftrightarrow> names_field (unquote (fst m)) name"

text \<open>
  \<open>named name vs\<close> are the values that are present for a field: the values of the
  members that name it in the objects among \<open>vs\<close>, in their order. A field is omitted
  when there is none. \<open>element_at i vs\<close> are the elements at index \<open>i\<close> of the arrays
  among \<open>vs\<close>.
\<close>

definition named :: "string \<Rightarrow> json list \<Rightarrow> json list" where
  "named name vs = [member_value m. v \<leftarrow> vs, m \<leftarrow> object_of v, names name m]"

definition element_at :: "nat \<Rightarrow> json list \<Rightarrow> json list" where
  "element_at i vs = [array_of v ! i. v \<leftarrow> vs, i < length (array_of v)]"

text \<open>
  The shapes of the fields, following the type \<open>Response\<close> and not the decoder. A string
  takes a string, an integer takes a number written as decimal digits, with a minus sign
  before them or not and with no fraction and no exponent, whose value is from
  \<open>- (2 ^ 63)\<close> to \<open>2 ^ 63 - 1\<close>; a struct takes an object each of whose members has the
  shape of the field it names, if it names one; the slice takes an array whose elements
  have the shape of the struct; and each of them takes \<^verbatim>\<open>null\<close>. The description takes
  any value.
\<close>

primrec decimal_rev :: "byte list \<Rightarrow> nat" where
  "decimal_rev [] = 0"
| "decimal_rev (d # ds) = (unat d - 48) + 10 * decimal_rev ds"

definition decimal :: "byte list \<Rightarrow> nat" where
  "decimal ds = decimal_rev (rev ds)"

definition int_literal :: "byte list \<Rightarrow> bool" where
  "int_literal item \<longleftrightarrow>
     (if take 1 item = [0x2D]
      then drop 1 item \<noteq> [] \<and> list_all isDigit (drop 1 item) \<and> decimal (drop 1 item) \<le> 2 ^ 63
      else item \<noteq> [] \<and> list_all isDigit item \<and> decimal item < 2 ^ 63)"

definition string_shape :: "json \<Rightarrow> bool" where
  "string_shape v \<longleftrightarrow> (case v of JString s \<Rightarrow> True | JNull \<Rightarrow> True | _ \<Rightarrow> False)"

definition int_shape :: "json \<Rightarrow> bool" where
  "int_shape v \<longleftrightarrow> (case v of JNumber item \<Rightarrow> int_literal item | JNull \<Rightarrow> True | _ \<Rightarrow> False)"

definition struct_shape :: "(member \<Rightarrow> bool) \<Rightarrow> json \<Rightarrow> bool" where
  "struct_shape member_shape v \<longleftrightarrow>
     (case v of JObject ms \<Rightarrow> list_all member_shape ms | JNull \<Rightarrow> True | _ \<Rightarrow> False)"

definition Version_member_shape :: "member \<Rightarrow> bool" where
  "Version_member_shape m \<longleftrightarrow>
     (names ''name'' m \<longrightarrow> string_shape (member_value m))
     \<and> (names ''protocol'' m \<longrightarrow> int_shape (member_value m))"

definition Sample_member_shape :: "member \<Rightarrow> bool" where
  "Sample_member_shape m \<longleftrightarrow>
     (names ''name'' m \<longrightarrow> string_shape (member_value m))
     \<and> (names ''id'' m \<longrightarrow> string_shape (member_value m))"

definition samples_shape :: "json \<Rightarrow> bool" where
  "samples_shape v \<longleftrightarrow>
     (case v of
        JArray els \<Rightarrow> list_all (struct_shape Sample_member_shape) els
      | JNull \<Rightarrow> True
      | _ \<Rightarrow> False)"

definition Players_member_shape :: "member \<Rightarrow> bool" where
  "Players_member_shape m \<longleftrightarrow>
     (names ''max'' m \<longrightarrow> int_shape (member_value m))
     \<and> (names ''online'' m \<longrightarrow> int_shape (member_value m))
     \<and> (names ''sample'' m \<longrightarrow> samples_shape (member_value m))"

definition Response_member_shape :: "member \<Rightarrow> bool" where
  "Response_member_shape m \<longleftrightarrow>
     (names ''version'' m \<longrightarrow> struct_shape Version_member_shape (member_value m))
     \<and> (names ''players'' m \<longrightarrow> struct_shape Players_member_shape (member_value m))
     \<and> (names ''favicon'' m \<longrightarrow> string_shape (member_value m))"

definition Response_shape :: "json \<Rightarrow> bool" where
  "Response_shape v \<longleftrightarrow> struct_shape Response_member_shape v"

text \<open>
  Payloads: an object that omits fields at every level, and one whose favicon is a
  number.
\<close>

definition partial_payload :: "byte list" where
  "partial_payload =
     string_bytes ''{\"version\":{\"name\":\"x\"},\"players\":{\"sample\":[{\"id\":\"1\"}]}}''"

definition misfit_payload :: "byte list" where
  "misfit_payload = string_bytes ''{\"favicon\":5}''"

text \<open>Two readers that have the same bytes left to deliver and end in the same way.\<close>

definition same_stream :: "Reader \<Rightarrow> Reader \<Rightarrow> bool" where
  "same_stream r q \<longleftrightarrow> remaining r = remaining q \<and> read_end (rd r) = read_end (rd q)"

text \<open>
  A uvarint as it can stand in a stream: bytes with the high bit set, then one byte with
  the high bit clear, at most \<open>MaxVarintLen64\<close> bytes, the tenth at most 1. It need not be
  the shortest encoding of its value.
\<close>

definition uvarint_encoding :: "byte list \<Rightarrow> bool" where
  "uvarint_encoding bs \<longleftrightarrow>
     bs \<noteq> [] \<and> list_all (\<lambda>b. 0x80 \<le> b) (butlast bs) \<and> last bs < 0x80
     \<and> length bs \<le> MaxVarintLen64 \<and> (length bs = MaxVarintLen64 \<longrightarrow> last bs \<le> 1)"

section \<open>Properties of the varint codec\<close>


lemma bit_0x80: "bit (0x80 :: int) n \<longleftrightarrow> n = 7"
proof -
  have "bit (push_bit 7 (1::int)) n \<longleftrightarrow> n = 7"
    by (simp only: bit_push_bit_iff bit_1_iff) auto
  then show ?thesis by simp
qed

lemma bit_0x7F: "bit (0x7F :: int) n \<longleftrightarrow> n < 7"
proof -
  have "bit (mask 7 :: int) n \<longleftrightarrow> n < 7"
    by (simp only: bit_mask_iff) auto
  then show ?thesis by (simp add: mask_eq_exp_minus_1)
qed

lemma unat_ucast_byte: "unat (v :: uint64) < 256 \<Longrightarrow> unat (ucast v :: byte) = unat v"
  by (simp add: unsigned_ucast_eq unsigned_take_bit_eq take_bit_nat_eq_self)

lemma ucast_byte_back: "unat (v :: uint64) < 256 \<Longrightarrow> (ucast (ucast v :: byte) :: uint64) = v"
  by (simp add: word_eq_iff_unsigned [where ?'a = nat] unsigned_ucast_eq unsigned_take_bit_eq take_bit_nat_eq_self)

lemma byte_cont: "(ucast (x::uint64) :: byte) OR 0x80 = of_nat ((unat x AND 0x7F) OR 0x80)"
proof -
  have "(of_nat ((unat x AND 0x7F) OR 0x80) :: byte) = (ucast x AND 0x7F) OR 0x80"
    by (simp add: of_nat_or_eq of_nat_and_eq)
  also have "\<dots> = ucast x OR 0x80"
  proof (rule bit_eqI)
    fix n
    show "bit ((ucast x AND 0x7F) OR 0x80 :: byte) n = bit (ucast x OR 0x80 :: byte) n"
      by (auto simp: bit_simps bit_0x80 bit_0x7F)
  qed
  finally show ?thesis by simp
qed

lemma PutUvarint_loop_eq:
  "PutUvarint_loop bytes i x =
     (if i + length (encodeVarint (unat x)) \<le> length bytes
      then Inr (take i bytes @ encodeVarint (unat x) @ drop (i + length (encodeVarint (unat x))) bytes,
                i + length (encodeVarint (unat x)))
      else Inl IndexOutOfRange)"
proof (induction bytes i x rule: PutUvarint_loop.induct)
  case (1 bytes i x)
  show ?case
  proof (cases "x \<ge> 0x80")
    case False
    then have "unat x < 128" by (simp add: word_le_nat_alt)
    then have e: "encodeVarint (unat x) = [ucast x]"
      by (simp add: encodeVarint.simps [of "unat x"])
    show ?thesis
      using False
      by (subst PutUvarint_loop.simps) (simp add: e upd_conv_take_nth_drop)
  next
    case True
    then have "\<not> unat x < 128" by (simp add: word_le_nat_alt)
    then have e: "encodeVarint (unat x) = (ucast x OR 0x80) # encodeVarint (unat (drop_bit 7 x))"
      by (simp add: encodeVarint.simps [of "unat x"] byte_cont unat_drop_bit_eq)
    show ?thesis
    proof (cases "i < length bytes")
      case False
      with True show ?thesis
        by (subst PutUvarint_loop.simps) (simp add: e)
    next
      case lt: True
      have t: "take (Suc i) (bytes[i := b]) = take i bytes @ [b]" for b
        using lt by (simp add: take_Suc_conv_app_nth)
      show ?thesis
        using True lt "1.IH" [OF True lt]
        by (subst PutUvarint_loop.simps) (simp add: e t)
    qed
  qed
qed


lemma read_segments_None: "read_segments n segs = None \<longleftrightarrow> concat segs = []"
  by (induction segs) auto

lemma read_segments_Some:
  "read_segments n segs = Some (data, segs') \<Longrightarrow> 0 < n \<Longrightarrow>
     data \<noteq> [] \<and> length data \<le> n \<and> data @ concat segs' = concat segs"
  by (induction segs) (auto split: if_splits)

lemma same_conn_refl [simp]: "same_conn r r"
  by (simp add: same_conn_def)

lemma same_conn_trans: "same_conn r r' \<Longrightarrow> same_conn r' r'' \<Longrightarrow> same_conn r r''"
  by (simp add: same_conn_def)

lemma same_conn_read_err: "same_conn r r' \<Longrightarrow> read_err (rd r') = read_err (rd r)"
  by (simp add: same_conn_def read_err_def)

lemma conn_Read_Inl:
  "conn_Read n c = Inl e \<longleftrightarrow> concat (incoming c) = [] \<and> e = read_err c"
  using read_segments_None [of n "incoming c"]
  by (auto simp del: concat_eq_Nil_conv simp: conn_Read_def split: option.splits)

lemma conn_Read_Inr:
  assumes "conn_Read n c = Inr (data, c')" and "0 < n"
  shows "data \<noteq> [] \<and> length data \<le> n \<and> data @ concat (incoming c') = concat (incoming c)
     \<and> read_end c' = read_end c \<and> write_errs c' = write_errs c \<and> written c' = written c
     \<and> closed c' = closed c"
  using assms read_segments_Some [of n "incoming c"]
  by (auto simp: conn_Read_def split: option.splits)

lemma ReadByte_Nil:
  "remaining r = [] \<Longrightarrow> ReadByte r = Inl (read_err (rd r))"
proof -
  assume "remaining r = []"
  then have "buf r = []" "concat (incoming (rd r)) = []"
    by (simp_all add: remaining_def del: concat_eq_Nil_conv)
  then have "conn_Read defaultBufSize (rd r) = Inl (read_err (rd r))"
    by (simp only: conn_Read_Inl)
  with \<open>buf r = []\<close> show ?thesis
    by (simp add: ReadByte_def)
qed

lemma ReadByte_Cons:
  assumes "remaining r = b # bs"
  shows "\<exists>r'. ReadByte r = Inr (b, r') \<and> remaining r' = bs \<and> same_conn r r'"
proof (cases "buf r")
  case (Cons c cs)
  with assms show ?thesis
    by (simp add: ReadByte_def remaining_def same_conn_def)
next
  case Nil
  with assms have ne: "concat (incoming (rd r)) = b # bs"
    by (simp add: remaining_def)
  show ?thesis
  proof (cases "conn_Read defaultBufSize (rd r)")
    case (Inl e)
    with ne show ?thesis by (simp add: conn_Read_Inl)
  next
    case (Inr p)
    obtain data c' where p: "p = (data, c')" by (cases p)
    from conn_Read_Inr [OF Inr [unfolded p]] ne
    have d: "data \<noteq> []" "data @ concat (incoming c') = b # bs"
      "read_end c' = read_end (rd r)" "write_errs c' = write_errs (rd r)"
      "written c' = written (rd r)" "closed c' = closed (rd r)"
      by (simp_all add: defaultBufSize_def)
    then obtain cs where "data = b # cs" "cs @ concat (incoming c') = bs"
      by (cases data) auto
    with Nil Inr p d show ?thesis
      by (simp add: ReadByte_def remaining_def same_conn_def)
  qed
qed

lemma varint_groups:
  fixes v :: uint64
  shows "push_bit s (ucast ((ucast v OR 0x80 :: byte) AND 0x7F)) OR push_bit (s + 7) (drop_bit 7 v)
     = push_bit s v"
proof (rule bit_eqI)
  fix n
  show "bit (push_bit s (ucast ((ucast v OR 0x80 :: byte) AND 0x7F)) OR push_bit (s + 7) (drop_bit 7 v)) n
     = bit (push_bit s v) n"
  proof (cases "s + 7 \<le> n")
    case True
    then have "7 + (n - (s + 7)) = n - s" by simp
    with True show ?thesis
      by (auto simp: bit_simps bit_0x80 bit_0x7F)
  next
    case False
    then show ?thesis
      by (auto simp: bit_simps bit_0x80 bit_0x7F)
  qed
qed

lemma ReadUvarint_loop_encode:
  assumes "remaining r = encodeVarint (unat v) @ rest" "i \<le> 9" "unat v < 2 ^ (64 - 7 * i)"
  shows "\<exists>r'. ReadUvarint_loop i x s r = Inr (x OR push_bit s v, r')
           \<and> remaining r' = rest \<and> same_conn r r'"
  using assms
proof (induction "unat v" arbitrary: v i x s r rule: encodeVarint.induct)
  case 1
  have i10: "i < MaxVarintLen64" using 1 by (simp add: MaxVarintLen64_def)
  show ?case
  proof (cases "unat v < 128")
    case True
    then have e: "encodeVarint (unat v) = [ucast v]"
      by (simp add: encodeVarint.simps [of "unat v"])
    with 1 obtain r' where r': "ReadByte r = Inr (ucast v, r')" "remaining r' = rest" "same_conn r r'"
      using ReadByte_Cons [of r "ucast v" rest] by auto
    from True have lt: "(ucast v :: byte) < 0x80"
      by (simp add: word_less_nat_alt unat_ucast_byte)
    have rt: "(ucast (ucast v :: byte) :: uint64) = v"
      using True by (simp add: ucast_byte_back)
    have nine: "i = 9 \<Longrightarrow> \<not> (ucast v :: byte) > 1"
    proof -
      assume "i = 9"
      with 1 have "unat v < 2" by simp
      then have "unat (ucast v :: byte) < 2" by (simp add: unat_ucast_byte)
      then show ?thesis by (simp add: word_less_nat_alt)
    qed
    show ?thesis
      using i10 r' lt rt nine
      by (subst ReadUvarint_loop.simps) (auto simp: MaxVarintLen64_def)
  next
    case False
    then have e: "encodeVarint (unat v) = (ucast v OR 0x80) # encodeVarint (unat (drop_bit 7 v))"
      by (simp add: encodeVarint.simps [of "unat v"] byte_cont unat_drop_bit_eq)
    with 1 obtain r' where r': "ReadByte r = Inr (ucast v OR 0x80, r')"
      "remaining r' = encodeVarint (unat (drop_bit 7 v)) @ rest" "same_conn r r'"
      using ReadByte_Cons [of r "ucast v OR 0x80"] by auto
    have ge: "\<not> (ucast v OR 0x80 :: byte) < 0x80"
      using le_word_or1 [of "0x80 :: byte" "ucast v"] by (simp add: not_less)
    have i8: "i \<le> 8"
    proof (rule ccontr)
      assume "\<not> i \<le> 8"
      with 1 have "i = 9" by simp
      with 1 have "unat v < 2" by simp
      with False show False by simp
    qed
    have bound: "unat (drop_bit 7 v) < 2 ^ (64 - 7 * (i + 1))"
    proof -
      have "64 - 7 * i = (64 - 7 * (i + 1)) + 7"
        using i8 by simp
      then have "(2::nat) ^ (64 - 7 * i) = 2 ^ (64 - 7 * (i + 1)) * 2 ^ 7"
        by (simp only: power_add)
      with 1(4) have "unat v < 2 ^ (64 - 7 * (i + 1)) * 2 ^ 7"
        by simp
      then show ?thesis
        by (simp add: unat_drop_bit_eq drop_bit_eq_div unat_div less_mult_imp_div_less)
    qed
    from 1(1) [OF False _ r'(2) _ bound, of "x OR push_bit s (ucast ((ucast v OR 0x80 :: byte) AND 0x7f))" "s + 7"] i8
    obtain r'' where r'': "ReadUvarint_loop (i + 1) (x OR push_bit s (ucast ((ucast v OR 0x80 :: byte) AND 0x7f))) (s + 7) r'
        = Inr (x OR push_bit s (ucast ((ucast v OR 0x80 :: byte) AND 0x7f)) OR push_bit (s + 7) (drop_bit 7 v), r'')"
      "remaining r'' = rest" "same_conn r' r''"
      by (auto simp: unat_drop_bit_eq or.assoc)
    have "x OR push_bit s (ucast ((ucast v OR 0x80 :: byte) AND 0x7f)) OR push_bit (s + 7) (drop_bit 7 v)
        = x OR push_bit s v"
      using varint_groups [of s v] by (simp add: or.assoc)
    with r'' r' i10 ge show ?thesis
      by (subst ReadUvarint_loop.simps) (auto intro: same_conn_trans)
  qed
qed


lemma encodeVarint_length_le:
  "n < 2 ^ (7 * k) \<Longrightarrow> 0 < k \<Longrightarrow> length (encodeVarint n) \<le> k"
proof (induction n arbitrary: k rule: encodeVarint.induct)
  case (1 n)
  show ?case
  proof (cases "n < 128")
    case True
    with 1(3) show ?thesis by (simp add: encodeVarint.simps [of n])
  next
    case False
    have k2: "1 < k"
    proof (rule ccontr)
      assume "\<not> 1 < k"
      with 1(3) have "k = 1" by simp
      with 1(2) False show False by simp
    qed
    then have "7 * k = 7 * (k - 1) + 7" by simp
    then have "(2::nat) ^ (7 * k) = 2 ^ (7 * (k - 1)) * 2 ^ 7"
      by (simp only: power_add)
    with 1(2) have "n div 128 < 2 ^ (7 * (k - 1))"
      by (simp add: less_mult_imp_div_less)
    with 1(1) [OF False, of "k - 1"] k2 have "length (encodeVarint (drop_bit 7 n)) \<le> k - 1"
      by (simp add: drop_bit_eq_div)
    with False k2 show ?thesis by (simp add: encodeVarint.simps [of n])
  qed
qed

lemma encodeVarint_length_gt:
  "2 ^ (7 * k) \<le> n \<Longrightarrow> k < length (encodeVarint n)"
proof (induction n arbitrary: k rule: encodeVarint.induct)
  case (1 n)
  show ?case
  proof (cases k)
    case 0
    then show ?thesis by (simp add: encodeVarint.simps [of n])
  next
    case (Suc j)
    then have "(2::nat) ^ (7 * k) = 2 ^ (7 * j) * 128" by (simp add: power_add)
    with 1(2) have le: "2 ^ (7 * j) * 128 \<le> n" by simp
    have "1 \<le> (2::nat) ^ (7 * j)" by simp
    then have "1 * 128 \<le> (2::nat) ^ (7 * j) * 128" by (rule mult_le_mono1)
    with le have "128 \<le> n" by linarith
    then have n128: "\<not> n < 128" by simp
    from le have "2 ^ (7 * j) \<le> n div 128"
      by (simp add: less_eq_div_iff_mult_less_eq)
    with 1(1) [OF n128, of j] have "j < length (encodeVarint (drop_bit 7 n))"
      by (simp add: drop_bit_eq_div)
    with n128 Suc show ?thesis by (simp add: encodeVarint.simps [of n])
  qed
qed

lemma encodeVarint_length_iff:
  "0 < k \<Longrightarrow> length (encodeVarint n) \<le> k \<longleftrightarrow> n < 2 ^ (7 * k)"
  using encodeVarint_length_le [of n k] encodeVarint_length_gt [of k n]
  by (auto simp: not_less [symmetric] not_le)

lemma PutUvarint_eq:
  "PutUvarint bytes x =
     (if length (encodeVarint (unat x)) \<le> length bytes
      then Inr (encodeVarint (unat x) @ drop (length (encodeVarint (unat x))) bytes,
                length (encodeVarint (unat x)))
      else Inl IndexOutOfRange)"
  by (simp add: PutUvarint_def PutUvarint_loop_eq)

lemma putVarInt_eq:
  "putVarInt out v =
     (if unat (scast v :: uint64) < 2 ^ 35 then Inr (out @ encodeVarint (unat (scast v :: uint64)))
      else Inl IndexOutOfRange)"
  using encodeVarint_length_iff [of 5 "unat (scast v :: uint64)"]
  by (simp add: putVarInt_def PutUvarint_eq MaxVarintLen32_def)

lemma scast_nonneg:
  fixes v :: int32
  assumes "0 \<le> sint v"
  shows "unat (scast v :: uint64) = nat (sint v)" and "nat (sint v) < 2 ^ 31"
proof -
  have "sint v < 2 ^ 31" using sint_lt [of v] by simp
  with assms show "nat (sint v) < 2 ^ 31" by simp
  have "uint (scast v :: uint64) = take_bit LENGTH(64) (sint v)"
    by (simp only: scast_eq uint_word_of_int_eq)
  then have "uint (scast v :: uint64) = take_bit 64 (sint v)"
    by simp
  also have "\<dots> = sint v"
    using assms \<open>sint v < 2 ^ 31\<close> by (simp add: take_bit_int_eq_self)
  finally show "unat (scast v :: uint64) = nat (sint v)" by (simp add: unat_eq_nat_uint)
qed

lemma scast_neg:
  fixes v :: int32
  assumes "sint v < 0"
  shows "2 ^ 63 \<le> unat (scast v :: uint64)"
proof -
  have lo: "- (2 ^ 31) \<le> sint v" using sint_ge [of v] by simp
  have "uint (scast v :: uint64) = take_bit LENGTH(64) (sint v)"
    by (simp only: scast_eq uint_word_of_int_eq)
  then have "uint (scast v :: uint64) = take_bit 64 (sint v)"
    by simp
  also have "\<dots> = sint v mod 2 ^ 64" by (simp add: take_bit_eq_mod)
  also have "\<dots> = sint v + 2 ^ 64"
  proof -
    have "(sint v + 2 ^ 64) mod 2 ^ 64 = sint v + 2 ^ 64"
      using assms lo by (intro mod_pos_pos_trivial) simp_all
    then show ?thesis by simp
  qed
  finally have "uint (scast v :: uint64) = sint v + 2 ^ 64" .
  with lo have "2 ^ 63 \<le> uint (scast v :: uint64)" by simp
  then have "nat (2 ^ 63) \<le> nat (uint (scast v :: uint64))"
    by (rule nat_mono)
  moreover have "nat (2 ^ 63) = (2::nat) ^ 63"
    by (simp only: nat_power_eq [of 2 63] nat_numeral zero_le_numeral)
  ultimately show ?thesis
    by (simp only: unat_eq_nat_uint)
qed


lemma ReadUvarint_encode:
  assumes "remaining r = encodeVarint (unat v) @ rest"
  shows "\<exists>r'. ReadUvarint r = Inr (v, r') \<and> remaining r' = rest \<and> same_conn r r'"
proof -
  have "unat v < 2 ^ (64 - 7 * 0)"
    using unsigned_less [of v, where ?'a = nat] by simp
  from ReadUvarint_loop_encode [OF assms _ this, of 0 0] show ?thesis
    by (simp add: ReadUvarint_def)
qed

text \<open>
  Claim C1. For every non-negative 32-bit integer \<open>v\<close>, \<open>putVarInt\<close> appends an
  encoding \<open>bs\<close> to the buffer without panicking; \<open>ReadUvarint\<close>, on any reader that
  delivers \<open>bs\<close> followed by anything, in any segmentation, returns \<open>v\<close> and consumes
  exactly the bytes of \<open>bs\<close>; and \<open>bs\<close> has the least number of 7-bit groups that hold
  \<open>v\<close>: it fits in \<open>k\<close> bytes if and only if \<open>v < 2 ^ (7 * k)\<close>. In particular 0 and
  127 take one byte, 128 two, and \<open>2 ^ 31 - 1\<close> five.
\<close>

theorem putVarInt_ReadUvarint_roundtrip:
  fixes v :: int32
  assumes "0 \<le> sint v"
  shows "\<exists>bs. putVarInt out v = Inr (out @ bs)
           \<and> (\<forall>r rest. remaining r = bs @ rest \<longrightarrow>
                 (\<exists>r'. ReadUvarint r = Inr (scast v, r') \<and> remaining r' = rest
                    \<and> length (remaining r) = length bs + length (remaining r')))
           \<and> (\<forall>k. 0 < k \<longrightarrow> (length bs \<le> k \<longleftrightarrow> sint v < 2 ^ (7 * k)))
           \<and> putVarInt [] 0 = Inr [0x00]
           \<and> putVarInt [] 127 = Inr [0x7F]
           \<and> putVarInt [] 128 = Inr [0x80, 0x01]
           \<and> putVarInt [] 0x7FFFFFFF = Inr [0xFF, 0xFF, 0xFF, 0xFF, 0x07]"
proof -
  let ?n = "nat (sint v)"
  let ?bs = "encodeVarint ?n"
  have n: "unat (scast v :: uint64) = ?n" "?n < 2 ^ 31"
    using scast_nonneg [OF assms] by simp_all
  have "?n < 2 ^ 35"
    using n(2) by (rule less_trans) simp
  then have enc: "putVarInt out v = Inr (out @ ?bs)"
    by (simp add: putVarInt_eq n(1))
  have dec: "\<exists>r'. ReadUvarint r = Inr (scast v, r') \<and> remaining r' = rest
       \<and> length (remaining r) = length ?bs + length (remaining r')"
    if "remaining r = ?bs @ rest" for r rest
    using ReadUvarint_encode [of r "scast v" rest] that by (auto simp: n(1))
  have len: "length ?bs \<le> k \<longleftrightarrow> sint v < 2 ^ (7 * k)" if "0 < k" for k
  proof -
    have "length ?bs \<le> k \<longleftrightarrow> ?n < 2 ^ (7 * k)"
      using that by (rule encodeVarint_length_iff)
    also have "\<dots> \<longleftrightarrow> int ?n < int (2 ^ (7 * k))"
      by (simp only: of_nat_less_iff)
    also have "\<dots> \<longleftrightarrow> sint v < 2 ^ (7 * k)"
      using assms by simp
    finally show ?thesis .
  qed
  have c0: "putVarInt [] 0 = Inr [0x00]" by code_simp
  have c1: "putVarInt [] 127 = Inr [0x7F]" by code_simp
  have c2: "putVarInt [] 128 = Inr [0x80, 0x01]" by code_simp
  have c3: "putVarInt [] 0x7FFFFFFF = Inr [0xFF, 0xFF, 0xFF, 0xFF, 0x07]" by code_simp
  from enc dec len c0 c1 c2 c3 show ?thesis by blast
qed

theorem putVarInt_ReadUvarint_roundtrip_witness:
  "0 \<le> sint (300 :: int32)
   \<and> putVarInt [] (300 :: int32) = Inr [0xAC, 0x02]
   \<and> (\<exists>r'. ReadUvarint (NewReader (example_conn [[0xAC], [0x02, 0x05]])) = Inr (300, r')
          \<and> remaining r' = [0x05])
   \<and> \<not> length [0xAC, 0x02 :: byte] \<le> 1 \<and> length [0xAC, 0x02 :: byte] \<le> 2"
proof -
  have pos: "0 \<le> sint (300 :: int32)" by simp
  have enc: "putVarInt [] (300 :: int32) = Inr [0xAC, 0x02]" by code_simp
  have rem: "remaining (NewReader (example_conn [[0xAC], [0x02, 0x05]])) = [0xAC, 0x02] @ [0x05]"
    by (simp add: remaining_def NewReader_def example_conn_def)
  have sc: "(scast (300 :: int32) :: uint64) = 300" by simp
  from putVarInt_ReadUvarint_roundtrip [OF pos, of "[]"]
  obtain bs where bs: "putVarInt [] (300 :: int32) = Inr ([] @ bs)"
    and dec: "\<And>r rest. remaining r = bs @ rest \<Longrightarrow>
       \<exists>r'. ReadUvarint r = Inr (scast (300 :: int32), r') \<and> remaining r' = rest
         \<and> length (remaining r) = length bs + length (remaining r')"
    by blast
  from bs enc have "bs = [0xAC, 0x02]" by simp
  with dec [of _ "[0x05]"] rem sc
  have "\<exists>r'. ReadUvarint (NewReader (example_conn [[0xAC], [0x02, 0x05]])) = Inr (300, r')
          \<and> remaining r' = [0x05]"
    by (simp only:) blast
  with pos enc show ?thesis by simp
qed

section \<open>Properties of the Handshake packet\<close>

lemma putVarInt_small:
  fixes v :: int32
  assumes "sint v = int n" "n < 2 ^ 31"
  shows "putVarInt out v = Inr (out @ encodeVarint n)"
proof -
  from assms have "0 \<le> sint v" by simp
  from scast_nonneg(1) [OF this] assms have u: "unat (scast v :: uint64) = n" by simp
  have "n < 2 ^ 35" using assms(2) by (rule less_trans) simp
  with u show ?thesis by (simp add: putVarInt_eq)
qed

lemma sint_ucast_small:
  fixes x :: uint64
  assumes "unat x < 2 ^ 31"
  shows "sint (ucast x :: int32) = int (unat x)"
proof -
  have "sint (ucast x :: int32) = signed_take_bit 31 (uint x)"
    by (simp add: signed_ucast_eq)
  also have "\<dots> = uint x"
  proof -
    have "int (unat x) < int (2 ^ 31)"
      using assms by (simp only: of_nat_less_iff)
    then have "uint x < 2 ^ 31" by simp
    moreover have "- (2 ^ 31) \<le> uint x"
    proof -
      have "- (2 ^ 31) \<le> (0::int)" by simp
      also have "0 \<le> uint x" by simp
      finally show ?thesis .
    qed
    ultimately show ?thesis by (intro signed_take_bit_int_eq_self)
  qed
  finally show ?thesis by simp
qed

lemma sint_of_nat_small:
  assumes "n < 2 ^ 31"
  shows "sint (of_nat n :: int32) = int n"
proof -
  have "sint (of_nat n :: int32) = signed_take_bit 31 (int n)"
    by (simp add: signed_of_nat)
  also have "\<dots> = int n"
  proof -
    have "int n < int (2 ^ 31)"
      using assms by (simp only: of_nat_less_iff)
    then have "int n < 2 ^ 31" by simp
    moreover have "- (2 ^ 31) \<le> int n"
    proof -
      have "- (2 ^ 31) \<le> (0::int)" by simp
      also have "0 \<le> int n" by simp
      finally show ?thesis .
    qed
    ultimately show ?thesis by (intro signed_take_bit_int_eq_self)
  qed
  finally show ?thesis .
qed

lemma BigEndian_uint16_eq:
  "BigEndian_uint16 port = [of_nat (unat port div 256), of_nat (unat port mod 256)]"
proof -
  have "(ucast (drop_bit 8 port) :: byte) = of_nat (unat port div 256)"
    by (simp add: word_eq_iff_unsigned [where ?'a = nat] unsigned_ucast_eq unat_drop_bit_eq
        drop_bit_eq_div unsigned_of_nat unat_div take_bit_eq_mod)
  moreover have "(ucast port :: byte) = of_nat (unat port mod 256)"
    by (simp add: word_eq_iff_unsigned [where ?'a = nat] unsigned_ucast_eq unsigned_of_nat
        take_bit_eq_mod unsigned_take_bit_eq)
  ultimately show ?thesis by (simp add: BigEndian_uint16_def)
qed


lemma length_encodeVarint_pos: "0 < length (encodeVarint n)"
  by (subst encodeVarint.simps) simp

lemma unat_nonneg_sint:
  fixes x :: go_int
  assumes "0 \<le> sint x"
  shows "unat x = nat (sint x)"
proof -
  have "sint x < 2 ^ 63" using sint_lt [of x] by simp
  also have "(2::int) ^ 63 < 2 ^ 64" by simp
  finally have lt: "sint x < 2 ^ 64" .
  have "uint x = take_bit LENGTH(64) (sint x)" by (rule uint_sint)
  also have "\<dots> = sint x"
    using assms lt by (simp add: take_bit_int_eq_self)
  finally show ?thesis by (simp add: unat_eq_nat_uint)
qed

text \<open>
  Claim C2. For a protocol version that is a non-negative 32-bit integer, and an address
  with which the length of the packet's body still is one (the specification's invariant
  that all count fields fit in the 32-bit signed range), \<open>makeHandshakePacket\<close> returns
  exactly \<^verbatim>\<open>varint(len) | 0x00 | varint(protocolVersion) | varint(len(address)) | address |
  port (big-endian) | varint(1)\<close>, and the leading varint, read back by \<open>ReadUvarint\<close>,
  is the number of the bytes that follow it, which are all that is left to read.
\<close>

theorem makeHandshakePacket_format:
  assumes "0 \<le> sint protocolVersion" and "sint protocolVersion < 2 ^ 31"
    and "length (handshake_body address port (nat (sint protocolVersion))) < 2 ^ 31"
  shows "makeHandshakePacket address port protocolVersion =
           Inr (encodeVarint (length (handshake_body address port (nat (sint protocolVersion))))
                  @ handshake_body address port (nat (sint protocolVersion)))
         \<and> (\<forall>r. remaining r
                    = encodeVarint (length (handshake_body address port (nat (sint protocolVersion))))
                        @ handshake_body address port (nat (sint protocolVersion)) \<longrightarrow>
               (\<exists>len r'. ReadUvarint r = Inr (len, r')
                  \<and> unat len = length (handshake_body address port (nat (sint protocolVersion)))
                  \<and> remaining r' = handshake_body address port (nat (sint protocolVersion))))"
proof -
  let ?v = "nat (sint protocolVersion)"
  let ?body = "handshake_body address port ?v"
  have v: "unat protocolVersion = ?v"
    using assms(1) by (rule unat_nonneg_sint)
  have v31: "unat protocolVersion < 2 ^ 31"
    using assms(1,2) by (simp add: v)
  have alen: "length address < 2 ^ 31"
    using assms(3) by (simp add: handshake_body_def string_bytes_def)
  have p1: "putVarInt [0x00] (ucast protocolVersion) = Inr ([0x00] @ encodeVarint ?v)"
    using v31 unfolding v [symmetric] by (intro putVarInt_small sint_ucast_small)
  have p2: "putVarInt bs (of_nat (length address)) = Inr (bs @ encodeVarint (length address))" for bs
    using alen by (intro putVarInt_small sint_of_nat_small)
  have p3: "putVarInt bs 1 = Inr (bs @ encodeVarint 1)" for bs
    by (rule putVarInt_small) simp_all
  have p4: "putVarInt [] (of_nat (length ?body)) = Inr ([] @ encodeVarint (length ?body))"
    using assms(3) by (intro putVarInt_small sint_of_nat_small)
  have b: "([0x00] @ encodeVarint ?v @ encodeVarint (length address))
        @ string_bytes address @ BigEndian_uint16 port @ encodeVarint 1 = ?body"
    by (simp add: handshake_body_def BigEndian_uint16_eq)
  have mk: "makeHandshakePacket address port protocolVersion = Inr (encodeVarint (length ?body) @ ?body)"
    unfolding makeHandshakePacket_def p1 sum.case p2 p3
    using p4 b by simp
  have dec: "\<exists>len r'. ReadUvarint r = Inr (len, r') \<and> unat len = length ?body \<and> remaining r' = ?body"
    if r: "remaining r = encodeVarint (length ?body) @ ?body" for r
  proof -
    have "length ?body < 2 ^ 64"
      using assms(3) by (rule less_trans) simp
    then have u: "unat (of_nat (length ?body) :: uint64) = length ?body"
      by (simp add: unsigned_of_nat take_bit_nat_eq_self)
    from ReadUvarint_encode [of r "of_nat (length ?body)" ?body] r u show ?thesis
      by auto
  qed
  from mk dec show ?thesis by blast
qed

theorem makeHandshakePacket_format_witness:
  "0 \<le> sint (0 :: go_int) \<and> sint (0 :: go_int) < 2 ^ 31
   \<and> length (handshake_body ''x'' 25565 (nat (sint (0 :: go_int)))) < 2 ^ 31
   \<and> makeHandshakePacket ''x'' 25565 0 = Inr [0x07, 0x00, 0x00, 0x01, 0x78, 0x63, 0xDD, 0x01]
   \<and> (\<exists>len r'. ReadUvarint (NewReader (example_conn [[0x07, 0x00, 0x00, 0x01], [0x78, 0x63, 0xDD, 0x01]]))
          = Inr (len, r') \<and> unat len = 7 \<and> remaining r' = [0x00, 0x00, 0x01, 0x78, 0x63, 0xDD, 0x01])"
proof -
  have body: "handshake_body ''x'' 25565 (nat (sint (0 :: go_int))) = [0x00, 0x00, 0x01, 0x78, 0x63, 0xDD, 0x01]"
    by (simp add: handshake_body_def string_bytes_def encodeVarint.simps)
  have enc: "encodeVarint 7 = [0x07]"
    by code_simp
  have h1: "0 \<le> sint (0 :: go_int)" and h2: "sint (0 :: go_int) < 2 ^ 31" by simp_all
  have h3: "length (handshake_body ''x'' 25565 (nat (sint (0 :: go_int)))) < 2 ^ 31"
    unfolding body by simp
  have rem: "remaining (NewReader (example_conn [[0x07, 0x00, 0x00, 0x01], [0x78, 0x63, 0xDD, 0x01]]))
      = [0x07] @ [0x00, 0x00, 0x01, 0x78, 0x63, 0xDD, 0x01]"
    by (simp add: remaining_def NewReader_def example_conn_def)
  have len7: "length [0x00, 0x00, 0x01, 0x78, 0x63, 0xDD, 0x01 :: byte] = 7"
    by simp
  note fmt = makeHandshakePacket_format [OF h1 h2 h3, unfolded body len7 enc]
  from fmt have "makeHandshakePacket ''x'' 25565 0 = Inr ([0x07] @ [0x00, 0x00, 0x01, 0x78, 0x63, 0xDD, 0x01])"
    by (rule conjunct1)
  moreover from fmt rem
  have "\<exists>len r'. ReadUvarint (NewReader (example_conn [[0x07, 0x00, 0x00, 0x01], [0x78, 0x63, 0xDD, 0x01]]))
          = Inr (len, r') \<and> unat len = 7 \<and> remaining r' = [0x00, 0x00, 0x01, 0x78, 0x63, 0xDD, 0x01]"
    by blast
  ultimately show ?thesis using h1 h2 h3 by simp
qed

text \<open>
  Claim C4 says that \<open>makeHandshakePacket\<close> has no error path for any protocol version.
  The code panics on every protocol version that is negative as an \<^verbatim>\<open>int32\<close>:
  \<^verbatim>\<open>uint64(value)\<close> extends the sign, the value then takes ten bytes as a uvarint, and
  \<open>PutUvarint\<close> indexes beyond the slice of \<open>MaxVarintLen32\<close> bytes. Here it is at
  \<^verbatim>\<open>makeHandshakePacket("x", 25565, -1)\<close>.
\<close>

theorem makeHandshakePacket_negative_version_panics:
  "makeHandshakePacket ''x'' 25565 (- 1) = Inl IndexOutOfRange"
  by code_simp

section \<open>Properties of the buffered reader and of the response reader\<close>

lemma same_conn_read_end: "same_conn r r' \<Longrightarrow> read_end (rd r') = read_end (rd r)"
  by (simp add: same_conn_def)

lemma Read_Nil:
  assumes "remaining r = []" "0 < n"
  shows "Read n r = Inl (read_err (rd r))"
proof -
  from assms have b: "buf r = []" and c: "concat (incoming (rd r)) = []"
    by (simp_all add: remaining_def del: concat_eq_Nil_conv)
  from c have "conn_Read k (rd r) = Inl (read_err (rd r))" for k
    by (simp only: conn_Read_Inl)
  with b assms(2) show ?thesis by (simp add: Read_def)
qed

lemma Read_Cons:
  assumes "remaining r \<noteq> []" "0 < n"
  shows "\<exists>data r'. Read n r = Inr (data, r') \<and> data \<noteq> [] \<and> length data \<le> n
           \<and> data @ remaining r' = remaining r \<and> same_conn r r'"
proof (cases "buf r = []")
  case False
  with assms(2) show ?thesis
    by (simp add: Read_def remaining_def same_conn_def)
next
  case True
  with assms have ne: "concat (incoming (rd r)) \<noteq> []"
    by (simp add: remaining_def del: concat_eq_Nil_conv)
  have ex: "\<exists>data c'. conn_Read k (rd r) = Inr (data, c')" for k
  proof (cases "conn_Read k (rd r)")
    case (Inl e)
    with ne show ?thesis by (simp add: conn_Read_Inl del: concat_eq_Nil_conv)
  next
    case (Inr p)
    then show ?thesis by (cases p) simp
  qed
  show ?thesis
  proof (cases "n \<ge> defaultBufSize")
    case big: True
    from ex [of n] obtain data c' where d: "conn_Read n (rd r) = Inr (data, c')" by blast
    from conn_Read_Inr [OF d assms(2)] d True big assms(2) show ?thesis
      by (simp add: Read_def remaining_def same_conn_def)
  next
    case small: False
    from ex [of defaultBufSize] obtain data c'
      where d: "conn_Read defaultBufSize (rd r) = Inr (data, c')" by blast
    have "0 < defaultBufSize" by (simp add: defaultBufSize_def)
    from conn_Read_Inr [OF d this] have f: "data \<noteq> []"
      "data @ concat (incoming c') = concat (incoming (rd r))"
      "read_end c' = read_end (rd r)" "write_errs c' = write_errs (rd r)"
      "written c' = written (rd r)" "closed c' = closed (rd r)"
      by simp_all
    have "take n data @ drop n data @ concat (incoming c') = concat (incoming (rd r))"
      using f(2) by (simp only: append_assoc [symmetric] append_take_drop_id)
    with d True small assms(2) f show ?thesis
      by (simp add: Read_def remaining_def same_conn_def)
  qed
qed

lemma ReadAtLeast_loop_enough:
  assumes "length got \<le> m" "m \<le> length got + length (remaining r)"
  shows "\<exists>r'. ReadAtLeast_loop r got m = Inr (got @ take (m - length got) (remaining r), r')
           \<and> remaining r' = drop (m - length got) (remaining r) \<and> same_conn r r'"
  using assms
proof (induction r got m rule: ReadAtLeast_loop.induct)
  case (1 r got m)
  show ?case
  proof (cases "length got < m")
    case False
    with 1(2) show ?thesis
      by (subst ReadAtLeast_loop.simps) simp
  next
    case True
    with 1(3) have ne: "remaining r \<noteq> []" by auto
    from True have pos: "0 < m - length got" by simp
    from Read_Cons [OF ne pos] obtain data r1 where
      rd: "Read (m - length got) r = Inr (data, r1)" and d: "data \<noteq> []"
      "length data \<le> m - length got" "data @ remaining r1 = remaining r" "same_conn r r1"
      by blast
    have l1: "length (got @ data) \<le> m" using d(2) True by simp
    have l2: "m \<le> length (got @ data) + length (remaining r1)"
      using 1(3) d(3) by (metis append.assoc length_append)
    from 1(1) [OF True rd refl l1 l2] obtain r' where
      r': "ReadAtLeast_loop r1 (got @ data) m
             = Inr ((got @ data) @ take (m - length (got @ data)) (remaining r1), r')"
      "remaining r' = drop (m - length (got @ data)) (remaining r1)" "same_conn r1 r'"
      by blast
    have t: "data @ take (m - length (got @ data)) (remaining r1)
        = take (m - length got) (remaining r)"
      using d(2) by (simp flip: d(3))
    have dr: "drop (m - length (got @ data)) (remaining r1) = drop (m - length got) (remaining r)"
      using d(2) by (simp flip: d(3))
    from True rd r' t dr d(4) show ?thesis
      by (subst ReadAtLeast_loop.simps) (auto intro: same_conn_trans)
  qed
qed

lemma ReadAtLeast_loop_short:
  assumes "length got + length (remaining r) < m"
  shows "ReadAtLeast_loop r got m =
           Inl (if 0 < length got + length (remaining r) \<and> read_err (rd r) = EOF
                then ErrUnexpectedEOF else read_err (rd r))"
  using assms
proof (induction r got m rule: ReadAtLeast_loop.induct)
  case (1 r got m)
  from 1(2) have lt: "length got < m" and pos: "0 < m - length got" by simp_all
  show ?case
  proof (cases "remaining r = []")
    case True
    from Read_Nil [OF True pos] True lt show ?thesis
      by (subst ReadAtLeast_loop.simps) simp
  next
    case False
    from Read_Cons [OF False pos] obtain data r1 where
      rd: "Read (m - length got) r = Inr (data, r1)" and d: "data \<noteq> []"
      "length data \<le> m - length got" "data @ remaining r1 = remaining r" "same_conn r r1"
      by blast
    have len: "length (got @ data) + length (remaining r1) = length got + length (remaining r)"
      by (simp flip: d(3))
    with 1(2) have l: "length (got @ data) + length (remaining r1) < m" by simp
    have e: "read_err (rd r1) = read_err (rd r)"
      using d(4) by (rule same_conn_read_err)
    from 1(1) [OF lt rd refl l] lt rd show ?thesis
      unfolding len e
      by (subst ReadAtLeast_loop.simps) simp
  qed
qed

lemma ReadFull_enough:
  assumes "n \<le> length (remaining r)"
  shows "\<exists>r'. ReadFull r n = Inr (take n (remaining r), r')
           \<and> remaining r' = drop n (remaining r) \<and> same_conn r r'"
  using ReadAtLeast_loop_enough [of "[]" n r] assms by (simp add: ReadFull_def)

lemma ReadFull_short:
  assumes "length (remaining r) < n"
  shows "ReadFull r n = Inl (if remaining r \<noteq> [] \<and> read_err (rd r) = EOF
                              then ErrUnexpectedEOF else read_err (rd r))"
  using ReadAtLeast_loop_short [of "[]" r n] assms by (simp add: ReadFull_def)


lemma same_stream_read_err: "same_stream r q \<Longrightarrow> read_err (rd r) = read_err (rd q)"
  by (simp add: same_stream_def read_err_def)

lemma ReadByte_Inl: "ReadByte r = Inl e \<Longrightarrow> remaining r = [] \<and> e = read_err (rd r)"
proof (cases "remaining r")
  case Nil
  assume "ReadByte r = Inl e"
  with ReadByte_Nil [OF Nil] Nil show ?thesis by simp
next
  case (Cons b bs)
  assume "ReadByte r = Inl e"
  with ReadByte_Cons [OF Cons] show ?thesis by auto
qed

lemma ReadByte_Inr:
  "ReadByte r = Inr (b, r') \<Longrightarrow> remaining r = b # remaining r' \<and> same_conn r r'"
proof (cases "remaining r")
  case Nil
  assume "ReadByte r = Inr (b, r')"
  with ReadByte_Nil [OF Nil] show ?thesis by simp
next
  case (Cons c cs)
  assume "ReadByte r = Inr (b, r')"
  with ReadByte_Cons [OF Cons] Cons show ?thesis by auto
qed

lemma ReadByte_cong:
  assumes "same_stream r q"
  shows "rel_sum (=) (rel_prod (=) same_stream) (ReadByte r) (ReadByte q)"
proof (cases "remaining r")
  case Nil
  with assms have "remaining q = []" by (simp add: same_stream_def)
  from ReadByte_Nil [OF Nil] ReadByte_Nil [OF this] same_stream_read_err [OF assms]
  show ?thesis by simp
next
  case (Cons b bs)
  with assms have q: "remaining q = b # bs" by (simp add: same_stream_def)
  from ReadByte_Cons [OF Cons] obtain r' where
    r': "ReadByte r = Inr (b, r')" "remaining r' = bs" "same_conn r r'" by blast
  from ReadByte_Cons [OF q] obtain q' where
    q': "ReadByte q = Inr (b, q')" "remaining q' = bs" "same_conn q q'" by blast
  from assms r'(3) q'(3) have "read_end (rd r') = read_end (rd q')"
    by (simp add: same_stream_def same_conn_def)
  with r' q' show ?thesis by (simp add: same_stream_def)
qed

lemma ReadUvarint_loop_cong:
  assumes "same_stream r q"
  shows "rel_sum (=) (rel_prod (=) same_stream)
           (ReadUvarint_loop i x s r) (ReadUvarint_loop i x s q)"
  using assms
proof (induction i x s r arbitrary: q rule: ReadUvarint_loop.induct)
  case (1 i x s r)
  show ?case
  proof (cases "i < MaxVarintLen64")
    case False
    then show ?thesis
      by (simp add: ReadUvarint_loop.simps [of i])
  next
    case True
    note rb = ReadByte_cong [OF 1(2)]
    show ?thesis
    proof (cases "ReadByte r")
      case (Inl e)
      with rb have "ReadByte q = Inl e" by (cases "ReadByte q") simp_all
      with Inl True show ?thesis
        by (simp add: ReadUvarint_loop.simps [of i])
    next
      case (Inr p)
      obtain b r' where p: "p = (b, r')" by (cases p)
      with rb Inr obtain q' where q': "ReadByte q = Inr (b, q')" "same_stream r' q'"
        by (cases "ReadByte q") auto
      show ?thesis
      proof (cases "b < 0x80")
        case t: True
        with True Inr p q' show ?thesis
          by (simp add: ReadUvarint_loop.simps [of i])
      next
        case f: False
        from 1(1) [OF True Inr p [symmetric] f q'(2)] True Inr p q' f show ?thesis
          by (simp add: ReadUvarint_loop.simps [of i])
      qed
    qed
  qed
qed

lemma ReadUvarint_cong:
  "same_stream r q \<Longrightarrow>
     rel_sum (=) (rel_prod (=) same_stream) (ReadUvarint r) (ReadUvarint q)"
  unfolding ReadUvarint_def by (rule ReadUvarint_loop_cong)

lemma ReadFull_cong:
  assumes "same_stream r q"
  shows "map_sum id fst (ReadFull r n) = map_sum id fst (ReadFull q n)"
proof (cases "n \<le> length (remaining r)")
  case True
  with assms have "n \<le> length (remaining q)" by (simp add: same_stream_def)
  from ReadFull_enough [OF True] ReadFull_enough [OF this] assms show ?thesis
    by (auto simp: same_stream_def)
next
  case False
  then have s: "length (remaining r) < n" by simp
  with assms have "length (remaining q) < n" by (simp add: same_stream_def)
  from ReadFull_short [OF s] ReadFull_short [OF this] assms same_stream_read_err [OF assms]
  show ?thesis
    by (simp add: same_stream_def)
qed

lemma Ping_readPayload_tail_cong:
  assumes "same_stream r q"
  shows "(case ReadFull r n of Inl err \<Rightarrow> Inl (Error err) | Inr (payload', _) \<Rightarrow> Inr payload')
       = (case ReadFull q n of Inl err \<Rightarrow> Inl (Error err) | Inr (payload', _) \<Rightarrow> (Inr payload' :: fault + byte list))"
  using ReadFull_cong [OF assms, of n]
  by (cases "ReadFull r n"; cases "ReadFull q n") auto

lemma Ping_readPayload_after_first:
  assumes "ReadUvarint r = Inr (v, r1)" "ReadUvarint q = Inr (w, q1)" "same_stream r1 q1"
  shows "Ping_readPayload r = Ping_readPayload q"
proof -
  note c2 = ReadUvarint_cong [OF assms(3)]
  show ?thesis
  proof (cases "ReadUvarint r1")
    case (Inl e)
    with c2 have "ReadUvarint q1 = Inl e" by (cases "ReadUvarint q1") simp_all
    with Inl assms show ?thesis by (simp add: Ping_readPayload_def)
  next
    case r2: (Inr p2)
    obtain v2 r2 where p2: "p2 = (v2, r2)" by (cases p2)
    with c2 r2 obtain q2 where q2: "ReadUvarint q1 = Inr (v2, q2)" "same_stream r2 q2"
      by (cases "ReadUvarint q1") auto
    note c3 = ReadUvarint_cong [OF q2(2)]
    show ?thesis
    proof (cases "ReadUvarint r2")
      case (Inl e)
      with c3 have "ReadUvarint q2 = Inl e" by (cases "ReadUvarint q2") simp_all
      with Inl assms r2 p2 q2 show ?thesis by (simp add: Ping_readPayload_def)
    next
      case r3: (Inr p3)
      obtain v3 r3 where p3: "p3 = (v3, r3)" by (cases p3)
      with c3 r3 obtain q3 where q3: "ReadUvarint q2 = Inr (v3, q3)" "same_stream r3 q3"
        by (cases "ReadUvarint q2") auto
      from assms r2 p2 q2 r3 p3 q3 Ping_readPayload_tail_cong [OF q3(2)]
      show ?thesis
        by (simp add: Ping_readPayload_def split: sum.splits)
    qed
  qed
qed

lemma Ping_readPayload_cong:
  assumes "same_stream r q"
  shows "Ping_readPayload r = Ping_readPayload q"
proof -
  note c1 = ReadUvarint_cong [OF assms]
  show ?thesis
  proof (cases "ReadUvarint r")
    case (Inl e)
    with c1 have "ReadUvarint q = Inl e" by (cases "ReadUvarint q") simp_all
    with Inl show ?thesis by (simp add: Ping_readPayload_def)
  next
    case (Inr p1)
    obtain v1 r1 where p1: "p1 = (v1, r1)" by (cases p1)
    with c1 Inr obtain q1 where q1: "ReadUvarint q = Inr (v1, q1)" "same_stream r1 q1"
      by (cases "ReadUvarint q") auto
    from Inr [unfolded p1] q1 show ?thesis by (rule Ping_readPayload_after_first)
  qed
qed

lemma ReadUvarint_loop_wellformed:
  assumes "remaining r = cs @ t # rest" "\<forall>c\<in>set cs. 0x80 \<le> c" "t < 0x80"
    "i + length cs \<le> 9" "i + length cs = 9 \<longrightarrow> t \<le> 1"
  shows "\<exists>v r'. ReadUvarint_loop i x s r = Inr (v, r') \<and> remaining r' = rest \<and> same_conn r r'"
  using assms
proof (induction cs arbitrary: i x s r)
  case Nil
  then have rem: "remaining r = t # rest" by simp
  from ReadByte_Cons [OF rem] obtain r' where
    r': "ReadByte r = Inr (t, r')" "remaining r' = rest" "same_conn r r'" by blast
  from Nil have "i < MaxVarintLen64" "\<not> (i = MaxVarintLen64 - 1 \<and> 1 < t)"
    by (auto simp: MaxVarintLen64_def)
  with r' \<open>t < 0x80\<close> show ?case
    by (subst ReadUvarint_loop.simps) simp
next
  case (Cons c cs)
  then have rem: "remaining r = c # (cs @ t # rest)" by simp
  from ReadByte_Cons [OF rem] obtain r1 where
    r1: "ReadByte r = Inr (c, r1)" "remaining r1 = cs @ t # rest" "same_conn r r1" by blast
  from Cons.prems have c: "\<not> c < 0x80" and i: "i < MaxVarintLen64"
    by (auto simp: MaxVarintLen64_def not_less)
  from Cons.prems have "\<forall>c\<in>set cs. 0x80 \<le> c" "(i + 1) + length cs \<le> 9"
    "(i + 1) + length cs = 9 \<longrightarrow> t \<le> 1"
    by simp_all
  from Cons.IH [OF r1(2) this(1) \<open>t < 0x80\<close> this(2,3)]
  obtain v r' where "ReadUvarint_loop (i + 1) (x OR push_bit s (ucast (c AND 0x7f))) (s + 7) r1
      = Inr (v, r')" "remaining r' = rest" "same_conn r1 r'"
    by blast
  with r1 c i show ?case
    by (subst ReadUvarint_loop.simps) (auto intro: same_conn_trans)
qed

lemma ReadUvarint_wellformed:
  assumes "uvarint_encoding e" "remaining r = e @ rest"
  shows "\<exists>v r'. ReadUvarint r = Inr (v, r') \<and> remaining r' = rest \<and> same_conn r r'"
proof -
  from assms(1) have ne: "e \<noteq> []" by (simp add: uvarint_encoding_def)
  then have e: "e = butlast e @ [last e]" by simp
  have rem: "remaining r = butlast e @ last e # rest"
    using assms(2) by (subst (asm) e) simp
  from ne have len: "length (butlast e) = length e - 1" "0 < length e" by simp_all
  have 1: "\<forall>c\<in>set (butlast e). 0x80 \<le> c"
    using assms(1) by (simp add: uvarint_encoding_def list_all_iff)
  have 2: "last e < 0x80" using assms(1) by (simp add: uvarint_encoding_def)
  have 3: "0 + length (butlast e) \<le> 9"
    using assms(1) len by (auto simp: uvarint_encoding_def MaxVarintLen64_def)
  have 4: "0 + length (butlast e) = 9 \<longrightarrow> last e \<le> 1"
    using assms(1) len by (auto simp: uvarint_encoding_def MaxVarintLen64_def)
  from ReadUvarint_loop_wellformed [OF rem 1 2 3 4] show ?thesis
    by (simp add: ReadUvarint_def)
qed

lemma ReadUvarint_loop_unterminated:
  assumes "\<forall>c\<in>set (remaining r). 0x80 \<le> c"
  shows "ReadUvarint_loop i x s r =
           Inl (if MaxVarintLen64 \<le> i + length (remaining r) then errOverflow
                else if 0 < i + length (remaining r) \<and> read_err (rd r) = EOF then ErrUnexpectedEOF
                else read_err (rd r))"
  using assms
proof (induction i x s r rule: ReadUvarint_loop.induct)
  case (1 i x s r)
  show ?case
  proof (cases "i < MaxVarintLen64")
    case False
    then show ?thesis by (subst ReadUvarint_loop.simps) simp
  next
    case True
    show ?thesis
    proof (cases "remaining r")
      case Nil
      from ReadByte_Nil [OF Nil] True Nil show ?thesis
        by (subst ReadUvarint_loop.simps) simp
    next
      case (Cons b bs)
      from ReadByte_Cons [OF Cons] obtain r' where
        r': "ReadByte r = Inr (b, r')" "remaining r' = bs" "same_conn r r'" by blast
      from 1(2) Cons have b: "\<not> b < 0x80" and bs: "\<forall>c\<in>set (remaining r'). 0x80 \<le> c"
        using r'(2) by (auto simp: not_less)
      have e: "read_err (rd r') = read_err (rd r)"
        using r'(3) by (rule same_conn_read_err)
      from 1(1) [OF True r'(1) refl b bs] True r' b Cons e show ?thesis
        by (subst ReadUvarint_loop.simps) simp
    qed
  qed
qed

lemma ReadUvarint_loop_overflow:
  assumes "remaining r = cs @ t # rest" "\<forall>c\<in>set cs. 0x80 \<le> c" "i + length cs = 9" "1 < t"
  shows "ReadUvarint_loop i x s r = Inl errOverflow"
  using assms
proof (induction cs arbitrary: i x s r)
  case Nil
  then have rem: "remaining r = t # rest" and i: "i = 9" by simp_all
  from ReadByte_Cons [OF rem] obtain r' where
    r': "ReadByte r = Inr (t, r')" by blast
  have "ReadUvarint_loop 10 y u r' = Inl errOverflow" for y u
    by (subst ReadUvarint_loop.simps) (simp add: MaxVarintLen64_def)
  with r' i \<open>1 < t\<close> show ?case
    by (subst ReadUvarint_loop.simps) (simp add: MaxVarintLen64_def)
next
  case (Cons c cs)
  then have rem: "remaining r = c # (cs @ t # rest)" by simp
  from ReadByte_Cons [OF rem] obtain r1 where
    r1: "ReadByte r = Inr (c, r1)" "remaining r1 = cs @ t # rest" by blast
  from Cons.prems have c: "\<not> c < 0x80" and i: "i < MaxVarintLen64"
    by (auto simp: MaxVarintLen64_def not_less)
  from Cons.prems have "\<forall>c\<in>set cs. 0x80 \<le> c" "(i + 1) + length cs = 9"
    by simp_all
  from Cons.IH [OF r1(2) this \<open>1 < t\<close>] r1 c i show ?case
    by (subst ReadUvarint_loop.simps) simp
qed

lemma ReadUvarint_loop_Inl:
  "ReadUvarint_loop i x s r = Inl e \<Longrightarrow>
     e = errOverflow \<or> e = ErrUnexpectedEOF \<or> e = read_err (rd r)"
proof (induction i x s r rule: ReadUvarint_loop.induct)
  case (1 i x s r)
  show ?case
  proof (cases "i < MaxVarintLen64")
    case False
    with 1(2) show ?thesis by (subst (asm) ReadUvarint_loop.simps) simp
  next
    case True
    show ?thesis
    proof (cases "ReadByte r")
      case (Inl e')
      from ReadByte_Inl [OF Inl] Inl True 1(2) show ?thesis
        by (subst (asm) ReadUvarint_loop.simps) (auto split: if_splits)
    next
      case (Inr p)
      obtain b r' where p: "p = (b, r')" by (cases p)
      from ReadByte_Inr [OF Inr [unfolded p]] have e: "read_err (rd r') = read_err (rd r)"
        by (simp add: same_conn_read_err)
      show ?thesis
      proof (cases "b < 0x80")
        case t: True
        with Inr p True 1(2) show ?thesis
          by (subst (asm) ReadUvarint_loop.simps) (auto split: if_splits)
      next
        case f: False
        from 1(2) True Inr p f
        have "ReadUvarint_loop (i + 1) (x OR push_bit s (ucast (b AND 0x7f))) (s + 7) r' = Inl e"
          by (subst (asm) ReadUvarint_loop.simps) simp
        from 1(1) [OF True Inr p [symmetric] f this] e show ?thesis by simp
      qed
    qed
  qed
qed

lemma ReadUvarint_Inr:
  "ReadUvarint_loop i x s r = Inr (v, r') \<Longrightarrow> same_conn r r'"
proof (induction i x s r rule: ReadUvarint_loop.induct)
  case (1 i x s r)
  show ?case
  proof (cases "i < MaxVarintLen64")
    case False
    with 1(2) show ?thesis by (subst (asm) ReadUvarint_loop.simps) simp
  next
    case True
    show ?thesis
    proof (cases "ReadByte r")
      case (Inl e')
      with True 1(2) show ?thesis
        by (subst (asm) ReadUvarint_loop.simps) simp
    next
      case (Inr p)
      obtain b r1 where p: "p = (b, r1)" by (cases p)
      from ReadByte_Inr [OF Inr [unfolded p]] have sc: "same_conn r r1" by simp
      show ?thesis
      proof (cases "b < 0x80")
        case t: True
        with Inr p True 1(2) sc show ?thesis
          by (subst (asm) ReadUvarint_loop.simps) (auto split: if_splits)
      next
        case f: False
        from 1(2) True Inr p f
        have "ReadUvarint_loop (i + 1) (x OR push_bit s (ucast (b AND 0x7f))) (s + 7) r1 = Inr (v, r')"
          by (subst (asm) ReadUvarint_loop.simps) simp
        from 1(1) [OF True Inr p [symmetric] f this] sc show ?thesis
          by (rule same_conn_trans [rotated])
      qed
    qed
  qed
qed

lemma ReadFull_Inl:
  "ReadFull r n = Inl e \<Longrightarrow> e = ErrUnexpectedEOF \<or> e = read_err (rd r)"
proof (cases "n \<le> length (remaining r)")
  case True
  assume "ReadFull r n = Inl e"
  with ReadFull_enough [OF True] show ?thesis by auto
next
  case False
  then have "length (remaining r) < n" by simp
  assume "ReadFull r n = Inl e"
  with ReadFull_short [OF \<open>length (remaining r) < n\<close>] show ?thesis
    by (auto split: if_splits)
qed

lemma read_err_not_packet_id: "read_err c \<noteq> ErrInvalidPacketId x"
  by (simp add: read_err_def split: option.splits)


lemma Ping_readPayload_payload:
  assumes "ReadUvarint r = Inr (len, r1)" "ReadUvarint r1 = Inr (0, r2)"
    "ReadUvarint r2 = Inr (n, r3)"
  shows "Ping_readPayload r =
           (if maxAlloc < unat n \<or> sint n < 0 then Inl (Panic MakesliceLenOutOfRange)
            else if unat n \<le> length (remaining r3) then Inr (take (unat n) (remaining r3))
            else Inl (Error (if remaining r3 \<noteq> [] \<and> read_err (rd r3) = EOF
                             then ErrUnexpectedEOF else read_err (rd r3))))"
proof (cases "maxAlloc < unat n \<or> sint n < 0")
  case True
  with assms show ?thesis
    by (simp add: Ping_readPayload_def makeslice_def)
next
  case False
  show ?thesis
  proof (cases "unat n \<le> length (remaining r3)")
    case le: True
    from ReadFull_enough [OF le] obtain r' where
      "ReadFull r3 (unat n) = Inr (take (unat n) (remaining r3), r')" by blast
    with assms False le show ?thesis
      by (simp add: Ping_readPayload_def makeslice_def)
  next
    case gt: False
    then have "length (remaining r3) < unat n" by simp
    from ReadFull_short [OF this] assms False gt show ?thesis
      by (simp add: Ping_readPayload_def makeslice_def)
  qed
qed

text \<open>
  Claim C3, amended. \<open>ReadUvarint\<close>, which reads the packet length, the packet ID and
  the payload length of the response, fails when the stream ends before a byte with the
  high bit clear is seen: with the error of the read (\<^verbatim>\<open>io.EOF\<close> when the stream is
  empty, \<^verbatim>\<open>io.ErrUnexpectedEOF\<close> when it ends within the varint, the error of the
  network otherwise), or with the overflow error when ten bytes went by. It fails with the
  overflow error when the encoded value overflows 64 bits: when nine bytes with the high
  bit set are followed by a byte greater than 1.
\<close>

theorem ReadUvarint_fails_on_malformed:
  "(list_all (\<lambda>c. 0x80 \<le> c) (remaining r) \<longrightarrow>
      ReadUvarint r =
        Inl (if MaxVarintLen64 \<le> length (remaining r) then errOverflow
             else if remaining r \<noteq> [] \<and> read_err (rd r) = EOF then ErrUnexpectedEOF
             else read_err (rd r)))
   \<and> (remaining r = cs @ t # rest \<and> length cs = 9 \<and> list_all (\<lambda>c. 0x80 \<le> c) cs \<and> 1 < t \<longrightarrow>
      ReadUvarint r = Inl errOverflow)"
  using ReadUvarint_loop_unterminated [of r 0 0 0] ReadUvarint_loop_overflow [of r cs t rest 0 0 0]
  by (simp add: ReadUvarint_def list_all_iff)

theorem ReadUvarint_fails_on_malformed_witness:
  "ReadUvarint (NewReader (example_conn [[0x80], [0x80]])) = Inl ErrUnexpectedEOF
   \<and> ReadUvarint (NewReader (example_conn [[0x80, 0x80, 0x80, 0x80, 0x80, 0x80, 0x80, 0x80, 0x80, 0x02]]))
       = Inl errOverflow"
proof -
  let ?r = "NewReader (example_conn [[0x80], [0x80]])"
  let ?q = "NewReader (example_conn [[0x80, 0x80, 0x80, 0x80, 0x80, 0x80, 0x80, 0x80, 0x80, 0x02]])"
  have r: "remaining ?r = [0x80, 0x80]" "read_err (rd ?r) = EOF"
    by (simp_all add: remaining_def NewReader_def example_conn_def read_err_def)
  have q: "remaining ?q = [0x80, 0x80, 0x80, 0x80, 0x80, 0x80, 0x80, 0x80, 0x80] @ 0x02 # []"
    by (simp add: remaining_def NewReader_def example_conn_def)
  from ReadUvarint_fails_on_malformed [of ?r "[]" 0 "[]", THEN conjunct1] r
  have 1: "ReadUvarint ?r = Inl ErrUnexpectedEOF"
    by (simp add: MaxVarintLen64_def)
  from ReadUvarint_fails_on_malformed
    [of ?q "[0x80, 0x80, 0x80, 0x80, 0x80, 0x80, 0x80, 0x80, 0x80]" "0x02" "[]", THEN conjunct2] q
  have 2: "ReadUvarint ?q = Inl errOverflow"
    by simp
  from 1 2 show ?thesis by simp
qed

text \<open>The equations that evaluate the readers on a given connection.\<close>

lemmas reader_eval = ReadUvarint_def ReadUvarint_loop.simps MaxVarintLen64_def ReadByte_def
  NewReader_def example_conn_def conn_Read_def defaultBufSize_def read_err_def

lemmas payload_eval = Ping_readPayload_def makeslice_def maxAlloc_def ReadFull_def
  ReadAtLeast_loop.simps Read_def

text \<open>
  The counterexample to claim C3 as it is stated: the five bytes
  \<^verbatim>\<open>80 80 80 80 10\<close> encode \<open>2 ^ 32\<close>, which overflows 32 bits, and \<open>ReadUvarint\<close>
  returns that value.
\<close>

theorem ReadUvarint_accepts_more_than_32_bits:
  "ReadUvarint (NewReader (example_conn [[0x80, 0x80, 0x80, 0x80, 0x10]]))
     = Inr (0x100000000, \<lparr>buf = [], rd = example_conn [[]]\<rparr>)"
  by (simp add: reader_eval)

text \<open>
  Claim C6. Once the packet length and the packet ID have been read, a packet ID other
  than 0 makes the response reader fail with the error that names that ID, and no payload
  is returned; that error is returned if and only if the packet ID is not 0. In particular
  the bytes \<^verbatim>\<open>varint(2) | varint(5) | varint(0)\<close> give it with the ID 5.
\<close>

theorem Ping_rejects_nonzero_packet_id:
  assumes "ReadUvarint r = Inr (len, r1)" "ReadUvarint r1 = Inr (packetId, r2)"
  shows "(packetId \<noteq> 0 \<longrightarrow> Ping_readPayload r = Inl (Error (ErrInvalidPacketId packetId)))
       \<and> ((\<exists>x. Ping_readPayload r = Inl (Error (ErrInvalidPacketId x))) \<longleftrightarrow> packetId \<noteq> 0)
       \<and> Ping_readPayload (NewReader (example_conn [[0x02, 0x05, 0x00]]))
           = Inl (Error (ErrInvalidPacketId 5))"
proof -
  have nz: "Ping_readPayload r = Inl (Error (ErrInvalidPacketId packetId))" if "packetId \<noteq> 0"
    using assms that by (simp add: Ping_readPayload_def)
  have z: "Ping_readPayload r \<noteq> Inl (Error (ErrInvalidPacketId x))" if "packetId = 0" for x
  proof (cases "ReadUvarint r2")
    case (Inl e)
    from ReadUvarint_loop_Inl [OF Inl [unfolded ReadUvarint_def]]
    have "e \<noteq> ErrInvalidPacketId x"
      using read_err_not_packet_id [of "rd r2" x] by auto
    with assms that Inl show ?thesis by (simp add: Ping_readPayload_def)
  next
    case (Inr p)
    obtain n r3 where p: "p = (n, r3)" by (cases p)
    show ?thesis
    proof (cases "makeslice n")
      case (Inl pn)
      with assms that Inr p show ?thesis by (simp add: Ping_readPayload_def)
    next
      case payload: (Inr payload)
      show ?thesis
      proof (cases "ReadFull r3 (length payload)")
        case (Inl e)
        from ReadFull_Inl [OF Inl] have "e \<noteq> ErrInvalidPacketId x"
          using read_err_not_packet_id [of "rd r3" x] by auto
        with assms that Inr p payload Inl show ?thesis by (simp add: Ping_readPayload_def)
      next
        case full: (Inr pr)
        with assms that Inr p payload show ?thesis
          by (cases pr) (simp add: Ping_readPayload_def)
      qed
    qed
  qed
  have ex: "Ping_readPayload (NewReader (example_conn [[0x02, 0x05, 0x00]]))
      = Inl (Error (ErrInvalidPacketId 5))"
    by (simp add: Ping_readPayload_def reader_eval)
  from nz z ex show ?thesis by blast
qed

theorem Ping_rejects_nonzero_packet_id_witness:
  "ReadUvarint (NewReader (example_conn [[0x01], [0x07, 0x00]]))
     = Inr (1, \<lparr>buf = [], rd = example_conn [[], [0x07, 0x00]]\<rparr>)
   \<and> ReadUvarint \<lparr>buf = [], rd = example_conn [[], [0x07, 0x00]]\<rparr>
     = Inr (7, \<lparr>buf = [0x00], rd = example_conn [[]]\<rparr>)
   \<and> Ping_readPayload (NewReader (example_conn [[0x01], [0x07, 0x00]]))
     = Inl (Error (ErrInvalidPacketId 7))"
proof -
  have 1: "ReadUvarint (NewReader (example_conn [[0x01], [0x07, 0x00]]))
     = Inr (1, \<lparr>buf = [], rd = example_conn [[], [0x07, 0x00]]\<rparr>)"
    by (simp add: reader_eval)
  have 2: "ReadUvarint \<lparr>buf = [], rd = example_conn [[], [0x07, 0x00]]\<rparr>
     = Inr (7, \<lparr>buf = [0x00], rd = example_conn [[]]\<rparr>)"
    by (simp add: reader_eval)
  have 3: "(7 :: uint64) \<noteq> 0" by simp
  from Ping_rejects_nonzero_packet_id [OF 1 2, THEN conjunct1] 3
  have "Ping_readPayload (NewReader (example_conn [[0x01], [0x07, 0x00]]))
     = Inl (Error (ErrInvalidPacketId 7))"
    by (rule mp)
  with 1 2 show ?thesis by simp
qed

text \<open>
  Claim C8. The packet length at the head of the response is read and dropped: two
  streams that differ only in the uvarint at their head, in its value or its length, and
  that end in the same way, give the same result, whether a payload (the same one), an
  error (the same one) or a panic, however the bytes of either are cut into segments.
\<close>

theorem Ping_readPayload_ignores_packet_length:
  assumes "uvarint_encoding e1" "uvarint_encoding e2"
    and "remaining r = e1 @ rest" "remaining q = e2 @ rest"
    and "read_end (rd r) = read_end (rd q)"
  shows "Ping_readPayload r = Ping_readPayload q"
proof -
  from ReadUvarint_wellformed [OF assms(1,3)] obtain v r1 where
    r1: "ReadUvarint r = Inr (v, r1)" "remaining r1 = rest" "same_conn r r1" by blast
  from ReadUvarint_wellformed [OF assms(2,4)] obtain w q1 where
    q1: "ReadUvarint q = Inr (w, q1)" "remaining q1 = rest" "same_conn q q1" by blast
  from r1 q1 assms(5) have "same_stream r1 q1"
    by (simp add: same_stream_def same_conn_def)
  with r1(1) q1(1) show ?thesis by (rule Ping_readPayload_after_first)
qed

theorem Ping_readPayload_ignores_packet_length_witness:
  "Ping_readPayload (NewReader (example_conn [[0x04, 0x00], [0x02, 0x7B], [0x7D]]))
     = Ping_readPayload (NewReader (example_conn [[0xFF], [0x01, 0x00, 0x02, 0x7B, 0x7D]]))
   \<and> Ping_readPayload (NewReader (example_conn [[0xFF], [0x01, 0x00, 0x02, 0x7B, 0x7D]]))
     = Inr [0x7B, 0x7D]"
proof -
  let ?r = "NewReader (example_conn [[0x04, 0x00], [0x02, 0x7B], [0x7D]])"
  let ?q = "NewReader (example_conn [[0xFF], [0x01, 0x00, 0x02, 0x7B, 0x7D]])"
  have e1: "uvarint_encoding [0x04]" and e2: "uvarint_encoding [0xFF, 0x01]"
    by (simp_all add: uvarint_encoding_def MaxVarintLen64_def)
  have r: "remaining ?r = [0x04] @ [0x00, 0x02, 0x7B, 0x7D]"
    and q: "remaining ?q = [0xFF, 0x01] @ [0x00, 0x02, 0x7B, 0x7D]"
    and e: "read_end (rd ?r) = read_end (rd ?q)"
    by (simp_all add: remaining_def NewReader_def example_conn_def)
  have "Ping_readPayload ?q = Inr [0x7B, 0x7D]"
    by (simp add: reader_eval payload_eval)
  with Ping_readPayload_ignores_packet_length [OF e1 e2 r q e] show ?thesis
    by simp
qed

text \<open>
  Claim C5 says that, for every input stream, the payload is read until the declared
  length is there, and that the call fails with an error when the stream ends before.
  The code hands the declared length to \<^verbatim>\<open>make\<close> unchecked: a response that declares
  a payload of \<open>2 ^ 63\<close> bytes (packet length 1, packet ID 0, payload length
  \<^verbatim>\<open>80 80 80 80 80 80 80 80 80 01\<close>) and ends there makes \<^verbatim>\<open>Ping\<close> panic instead of
  returning an error. For a declared length of at most \<open>maxAlloc\<close>, lemma
  \<open>Ping_readPayload_payload\<close> above shows what the claim says.
\<close>

theorem Ping_readPayload_huge_length_panics:
  "Ping_readPayload (NewReader (example_conn
      [[0x01, 0x00, 0x80, 0x80, 0x80, 0x80, 0x80, 0x80, 0x80, 0x80, 0x80, 0x01]]))
     = Inl (Panic MakesliceLenOutOfRange)"
  by (simp add: reader_eval payload_eval)

section \<open>Properties of Ping\<close>

text \<open>The equations that evaluate the scanner on a given input.\<close>

lemmas scan_eval = checkValid_def scanner_reset_def scan_byte_def stateBeginValue_step_def
  stateBeginString_step_def stateEndValue_step_def value_done_def pushParseState_def
  number_done_def take_byte_def isSpace_def isDigit_def isHex_def maxNestingDepth_def

lemma checkValid_empty_object: "checkValid [0x7B, 0x7D] = Some (JObject [])"
  by (simp add: scan_eval)

lemma checkValid_empty_array: "checkValid [0x5B, 0x5D] = Some (JArray [])"
  by (simp add: scan_eval)

lemma makeHandshakePacket_example:
  "makeHandshakePacket ''x'' 25565 0 = Inr [0x07, 0x00, 0x00, 0x01, 0x78, 0x63, 0xDD, 0x01]"
  by code_simp

text \<open>
  With a connection, a deadline set and a handshake built, \<^verbatim>\<open>Ping\<close> returns what
  \<open>Unmarshal\<close> makes of the payload read; and what it returns does not depend on the
  results of its writes.
\<close>

lemma Ping_returned_payload:
  assumes "DialTimeout net (address @ '':'' @ Itoa (uint port)) timeout = Inr conn"
    and "SetDeadline net = None"
    and "makeHandshakePacket address port protocolVersion = Inr handshake"
    and "Ping_readPayload (NewReader (snd (conn_Write requestPacket (snd (conn_Write handshake conn)))))
           = Inr payload"
  shows "returned (Ping address port protocolVersion timeout net)
           = Inr (Unmarshal payload zero_Response)"
  using assms by (simp add: Ping_def Let_def)

lemma conn_Write_same_stream:
  "same_stream (NewReader (snd (conn_Write p (c\<lparr>write_errs := ws\<rparr>))))
     (NewReader (snd (conn_Write p c)))"
  by (simp add: same_stream_def remaining_def NewReader_def conn_Write_def split: list.splits)

lemma conn_Write_twice_same_stream:
  "same_stream (NewReader (snd (conn_Write q (snd (conn_Write p (c\<lparr>write_errs := ws\<rparr>))))))
     (NewReader (snd (conn_Write q (snd (conn_Write p c)))))"
  by (simp add: same_stream_def remaining_def NewReader_def conn_Write_def split: list.splits)

lemma Ping_returned_ignores_write_errs:
  "returned (Ping address port protocolVersion timeout
      (net\<lparr>DialTimeout := \<lambda>addr t. map_sum id (\<lambda>c. c\<lparr>write_errs := ws\<rparr>) (DialTimeout net addr t)\<rparr>))
   = returned (Ping address port protocolVersion timeout net)"
proof (cases "DialTimeout net (address @ '':'' @ Itoa (uint port)) timeout")
  case (Inl e)
  then show ?thesis by (simp add: Ping_def)
next
  case (Inr c)
  show ?thesis
  proof (cases "SetDeadline net")
    case (Some e)
    with Inr show ?thesis by (simp add: Ping_def)
  next
    case None
    show ?thesis
    proof (cases "makeHandshakePacket address port protocolVersion")
      case (Inl p)
      with Inr None show ?thesis by (simp add: Ping_def)
    next
      case h: (Inr handshake)
      have eq: "Ping_readPayload (NewReader (snd (conn_Write requestPacket
            (snd (conn_Write handshake (c\<lparr>write_errs := ws\<rparr>))))))
          = Ping_readPayload (NewReader (snd (conn_Write requestPacket
            (snd (conn_Write handshake c)))))"
        by (rule Ping_readPayload_cong) (rule conn_Write_twice_same_stream)
      from Inr None h show ?thesis
        by (simp add: Ping_def Let_def eq split: sum.splits fault.splits)
    qed
  qed
qed

text \<open>
  Claim C7 says that \<^verbatim>\<open>Ping\<close> fails with a write error whenever one of its two writes
  fails. The code drops what \<^verbatim>\<open>conn.Write\<close> returns, both times, while it returns the
  error of every other call of the connection. Here both writes fail and \<^verbatim>\<open>Ping\<close>
  goes on to read, and returns the response with no error. (By
  \<open>Ping_returned_ignores_write_errs\<close> no result of a write changes what \<^verbatim>\<open>Ping\<close>
  returns.)
\<close>

theorem Ping_ignores_failed_writes:
  "fst (conn_Write [0x07, 0x00, 0x00, 0x01, 0x78, 0x63, 0xDD, 0x01] failing_writes_conn)
     = Some (OpError (ErrConnection ''broken pipe''))
   \<and> fst (conn_Write requestPacket
        (snd (conn_Write [0x07, 0x00, 0x00, 0x01, 0x78, 0x63, 0xDD, 0x01] failing_writes_conn)))
     = Some (OpError (ErrConnection ''broken pipe''))
   \<and> returned (Ping ''x'' 25565 0 5000000000 failing_writes_network) = Inr (zero_Response, None)"
proof -
  have "Ping_readPayload (NewReader (snd (conn_Write requestPacket
      (snd (conn_Write [0x07, 0x00, 0x00, 0x01, 0x78, 0x63, 0xDD, 0x01] failing_writes_conn)))))
    = Inr [0x7B, 0x7D]"
    by (simp add: failing_writes_conn_def conn_Write_def payload_eval reader_eval)
  moreover have "Unmarshal [0x7B, 0x7D] zero_Response = (zero_Response, None)"
    by (simp add: Unmarshal_def checkValid_empty_object store_struct_def)
  ultimately have "returned (Ping ''x'' 25565 0 5000000000 failing_writes_network)
      = Inr (zero_Response, None)"
    by (simp add: Ping_def failing_writes_network_def makeHandshakePacket_example Let_def)
  then show ?thesis
    by (simp add: failing_writes_conn_def conn_Write_def)
qed

lemma Ping_written:
  "(case DialTimeout net (address @ '':'' @ Itoa (uint port)) timeout of
      Inl err \<Rightarrow> connection (Ping address port protocolVersion timeout net) = None
    | Inr conn \<Rightarrow>
        (\<exists>c. connection (Ping address port protocolVersion timeout net) = Some c \<and> closed c
           \<and> (written c = written conn
              \<or> (\<exists>handshake. makeHandshakePacket address port protocolVersion = Inr handshake
                    \<and> written c = written conn @ [handshake, [0x01, 0x00]]))))"
  by (auto simp: Ping_def Let_def conn_Write_def conn_Close_def requestPacket_def
      split: sum.splits option.splits list.splits fault.splits)


subsection \<open>Which values fit\<close>

lemma names_field_fold:
  "names_field key name \<Longrightarrow> foldName key = foldName (string_bytes name)"
  by (auto simp: names_field_def)

lemma foldName_names:
  "foldName (string_bytes ''version'') = string_bytes ''VERSION''"
  "foldName (string_bytes ''players'') = string_bytes ''PLAYERS''"
  "foldName (string_bytes ''description'') = string_bytes ''DESCRIPTION''"
  "foldName (string_bytes ''favicon'') = string_bytes ''FAVICON''"
  "foldName (string_bytes ''name'') = string_bytes ''NAME''"
  "foldName (string_bytes ''protocol'') = string_bytes ''PROTOCOL''"
  "foldName (string_bytes ''max'') = string_bytes ''MAX''"
  "foldName (string_bytes ''online'') = string_bytes ''ONLINE''"
  "foldName (string_bytes ''sample'') = string_bytes ''SAMPLE''"
  "foldName (string_bytes ''id'') = string_bytes ''ID''"
  by (simp_all add: string_bytes_def)

lemma names_apart:
  "\<not> (names_field k ''name'' \<and> names_field k ''protocol'')"
  "\<not> (names_field k ''name'' \<and> names_field k ''id'')"
  "\<not> (names_field k ''max'' \<and> names_field k ''online'')"
  "\<not> (names_field k ''max'' \<and> names_field k ''sample'')"
  "\<not> (names_field k ''online'' \<and> names_field k ''sample'')"
  "\<not> (names_field k ''version'' \<and> names_field k ''players'')"
  "\<not> (names_field k ''version'' \<and> names_field k ''description'')"
  "\<not> (names_field k ''version'' \<and> names_field k ''favicon'')"
  "\<not> (names_field k ''players'' \<and> names_field k ''description'')"
  "\<not> (names_field k ''players'' \<and> names_field k ''favicon'')"
  "\<not> (names_field k ''description'' \<and> names_field k ''favicon'')"
  by (auto dest!: names_field_fold simp: foldName_names string_bytes_def)

lemma digit_value: "isDigit d \<Longrightarrow> uint (d - 0x30) = int (unat d - 48)"
proof -
  assume "isDigit d"
  then have "48 \<le> d" by (simp add: isDigit_def)
  then have "unat (d - 48) = unat d - unat (48 :: byte)" by (rule unat_sub)
  then have "int (unat (d - 48)) = int (unat d - 48)" by simp
  then show ?thesis by simp
qed

lemma foldl_digits:
  "list_all isDigit ds \<Longrightarrow>
     foldl (\<lambda>a d. 10 * a + int (unat (d - 0x30))) 0 ds = int (decimal_rev (rev ds))"
proof (induction ds rule: rev_induct)
  case Nil
  show ?case by simp
next
  case (snoc d ds)
  then show ?case by (simp add: digit_value)
qed

lemma digits_value_decimal: "list_all isDigit ds \<Longrightarrow> digits_value ds = int (decimal ds)"
  unfolding digits_value_def decimal_def by (rule foldl_digits)

lemma ParseInt_int_literal: "ParseInt item \<noteq> None \<longleftrightarrow> int_literal item"
proof (cases "take 1 item = [0x2D]")
  case True
  have "- (2 ^ 63) \<le> - int (decimal (drop 1 item)) \<and> - int (decimal (drop 1 item)) \<le> 2 ^ 63 - 1
      \<longleftrightarrow> decimal (drop 1 item) \<le> 2 ^ 63"
    by auto
  with True show ?thesis
    by (auto simp: ParseInt_def int_literal_def Let_def digits_value_decimal)
next
  case False
  have "- (2 ^ 63) \<le> int (decimal item) \<and> int (decimal item) \<le> 2 ^ 63 - 1
      \<longleftrightarrow> decimal item < 2 ^ 63"
    by auto
  with False show ?thesis
    by (auto simp: ParseInt_def int_literal_def Let_def digits_value_decimal)
qed

lemma store_string_fits: "snd (store_string v x) = string_shape v"
  by (simp add: store_string_def string_shape_def split: json.splits)

lemma store_int_fits: "snd (store_int v x) = int_shape v"
proof -
  have "snd (case ParseInt item of Some n \<Rightarrow> (n, True) | None \<Rightarrow> (x, False)) = int_literal item"
    for item
    using ParseInt_int_literal [of item] by (cases "ParseInt item") auto
  then show ?thesis
    by (simp add: store_int_def int_shape_def split: json.splits)
qed

lemma object_members_fits:
  assumes "\<And>k st en v x. snd (field (unquote k) st en v x) = shape (k, st, en, v)"
  shows "snd (object_members field ms x) = list_all shape ms"
proof (induction ms arbitrary: x)
  case Nil
  show ?case by simp
next
  case (Cons m ms)
  obtain k st en v where m: "m = (k, st, en, v)" by (cases m)
  obtain x' ok where f: "field (unquote k) st en v x = (x', ok)"
    by (cases "field (unquote k) st en v x")
  obtain x'' ok' where o: "object_members field ms x' = (x'', ok')"
    by (cases "object_members field ms x'")
  from f assms [of k st en v x] have "ok = shape (k, st, en, v)" by simp
  moreover from o Cons.IH [of x'] have "ok' = list_all shape ms" by simp
  ultimately show ?case by (simp add: m f o)
qed

lemma store_struct_fits:
  assumes "\<And>k st en v x. snd (field (unquote k) st en v x) = shape (k, st, en, v)"
  shows "snd (store_struct field v x) = struct_shape shape v"
  using object_members_fits [of field shape, OF assms]
  by (simp add: store_struct_def struct_shape_def split: json.splits)

lemma Version_field_fits:
  "snd (Version_field (unquote k) st en v x) = Version_member_shape (k, st, en, v)"
  using names_apart(1) [of "unquote k"]
  by (auto simp: Version_field_def Version_member_shape_def names_def member_value_def
        store_string_fits store_int_fits split_beta)

lemma Sample_field_fits:
  "snd (Sample_field (unquote k) st en v x) = Sample_member_shape (k, st, en, v)"
  using names_apart(2) [of "unquote k"]
  by (auto simp: Sample_field_def Sample_member_shape_def names_def member_value_def
        store_string_fits split_beta)

lemma array_elements_fits:
  "snd (array_elements els arr) = list_all (struct_shape Sample_member_shape) els"
proof (induction els arbitrary: arr)
  case Nil
  show ?case by simp
next
  case (Cons e els)
  let ?x = "case arr of [] \<Rightarrow> zero_Sample | x # _ \<Rightarrow> x"
  obtain x' ok where f: "store_struct Sample_field e ?x = (x', ok)"
    by (cases "store_struct Sample_field e ?x")
  obtain arr' ok' where o: "array_elements els (tl arr) = (arr', ok')"
    by (cases "array_elements els (tl arr)")
  from f store_struct_fits [of Sample_field Sample_member_shape e ?x, OF Sample_field_fits]
  have "ok = struct_shape Sample_member_shape e" by simp
  moreover from o Cons.IH [of "tl arr"]
  have "ok' = list_all (struct_shape Sample_member_shape) els" by simp
  ultimately show ?case by (simp add: f o)
qed

lemma store_samples_fits: "snd (store_samples v x) = samples_shape v"
  using array_elements_fits
  by (simp add: store_samples_def samples_shape_def split_beta split: json.splits)

lemma Players_field_fits:
  "snd (Players_field (unquote k) st en v x) = Players_member_shape (k, st, en, v)"
  using names_apart(3,4,5) [of "unquote k"]
  by (auto simp: Players_field_def Players_member_shape_def names_def member_value_def
        store_int_fits store_samples_fits split_beta)

lemma Response_field_fits:
  "snd (Response_field data (unquote k) st en v x) = Response_member_shape (k, st, en, v)"
  using names_apart(6,8,10,11) [of "unquote k"]
    store_struct_fits [of Version_field Version_member_shape v, OF Version_field_fits]
    store_struct_fits [of Players_field Players_member_shape v, OF Players_field_fits]
  by (auto simp: Response_field_def Response_member_shape_def names_def member_value_def
        store_string_fits split_beta)

lemma Unmarshal_fits:
  assumes "checkValid payload = Some v"
  shows "snd (Unmarshal payload resp) = (if Response_shape v then None else Some UnmarshalTypeError)"
  using assms
    store_struct_fits [of "Response_field payload" Response_member_shape v resp,
      OF Response_field_fits]
  by (simp add: Unmarshal_def Response_shape_def split_beta)

lemma object_members_keeps:
  assumes "\<And>k st en v x. \<not> names_field k name \<Longrightarrow> sel (fst (field k st en v x)) = sel x"
    and "\<not> list_ex (\<lambda>m. names_field (unquote (fst m)) name) ms"
  shows "sel (fst (object_members field ms x)) = sel x"
  using assms(2)
proof (induction ms arbitrary: x)
  case Nil
  show ?case by simp
next
  case (Cons m ms)
  obtain k st en v where m: "m = (k, st, en, v)" by (cases m)
  obtain x' ok where f: "field (unquote k) st en v x = (x', ok)"
    by (cases "field (unquote k) st en v x")
  obtain x'' ok' where o: "object_members field ms x' = (x'', ok')"
    by (cases "object_members field ms x'")
  from Cons.prems m have n: "\<not> names_field (unquote k) name"
    and r: "\<not> list_ex (\<lambda>m. names_field (unquote (fst m)) name) ms"
    by simp_all
  from assms(1) [OF n, of st en v x] f have "sel x' = sel x" by simp
  moreover from Cons.IH [OF r, of x'] o have "sel x'' = sel x'" by simp
  ultimately show ?case by (simp add: m f o)
qed

subsection \<open>What a field holds\<close>

lemma named_Nil: "named name [] = []"
  by (simp add: named_def)

lemma named_append: "named name (vs @ ws) = named name vs @ named name ws"
  by (simp add: named_def)

lemma named_Cons: "named name (v # vs) = named name [v] @ named name vs"
  using named_append [of name "[v]" vs] by simp

lemma named_object: "named name [JObject ms] = map member_value (filter (names name) ms)"
  by (induction ms) (simp_all add: named_def object_of_def)

lemma named_no_object: "object_of v = [] \<Longrightarrow> named name [v] = []"
  by (simp add: named_def)

lemma element_at_append: "element_at i (vs @ ws) = element_at i vs @ element_at i ws"
  by (simp add: element_at_def)

lemma element_at_Cons: "element_at i (v # vs) = element_at i [v] @ element_at i vs"
  using element_at_append [of i "[v]" vs] by simp

lemma element_at_array:
  "element_at i [JArray els] = (if i < length els then [els ! i] else [])"
  by (simp add: element_at_def array_of_def)

lemma element_at_no_array: "array_of v = [] \<Longrightarrow> element_at i [v] = []"
  by (simp add: element_at_def)

text \<open>
  After an object is stored into a struct, a field holds what the members that name it
  have stored, one after the other, into what it held before.
\<close>

lemma object_members_field:
  assumes keep: "\<And>k st en v x. \<not> names_field k name \<Longrightarrow> sel (fst (field k st en v x)) = sel x"
    and stored: "\<And>k st en v x. names_field k name \<Longrightarrow> sel (fst (field k st en v x)) = upd (sel x) v"
  shows "sel (fst (object_members field ms x))
       = foldl upd (sel x) (map member_value (filter (names name) ms))"
proof (induction ms arbitrary: x)
  case Nil
  show ?case by simp
next
  case (Cons m ms)
  obtain k st en v where m: "m = (k, st, en, v)" by (cases m)
  obtain x' ok where f: "field (unquote k) st en v x = (x', ok)"
    by (cases "field (unquote k) st en v x")
  obtain x'' ok' where o: "object_members field ms x' = (x'', ok')"
    by (cases "object_members field ms x'")
  from o Cons.IH [of x']
  have ih: "sel x'' = foldl upd (sel x') (map member_value (filter (names name) ms))" by simp
  have n: "names name (k, st, en, v) = names_field (unquote k) name"
    by (simp add: names_def)
  have mv: "member_value (k, st, en, v) = v"
    by (simp add: member_value_def)
  show ?case
  proof (cases "names_field (unquote k) name")
    case True
    from stored [OF True, of st en v x] f have "sel x' = upd (sel x) v" by simp
    with True ih show ?thesis by (simp add: m f o n mv)
  next
    case False
    from keep [OF False, of st en v x] f have "sel x' = sel x" by simp
    with False ih show ?thesis by (simp add: m f o n)
  qed
qed

lemma store_struct_field:
  assumes "\<And>k st en v x. \<not> names_field k name \<Longrightarrow> sel (fst (field k st en v x)) = sel x"
    and "\<And>k st en v x. names_field k name \<Longrightarrow> sel (fst (field k st en v x)) = upd (sel x) v"
  shows "sel (fst (store_struct field v x)) = foldl upd (sel x) (named name [v])"
proof (cases v)
  case (JObject ms)
  with object_members_field [of name sel field upd ms x, OF assms] show ?thesis
    by (simp add: store_struct_def named_object)
qed (simp_all add: store_struct_def named_no_object object_of_def)

lemma foldl_named:
  assumes "\<And>v y. sel (g y v) = foldl h (sel y) (named name [v])"
  shows "sel (foldl g y vs) = foldl h (sel y) (named name vs)"
proof (induction vs arbitrary: y)
  case Nil
  show ?case by (simp add: named_Nil)
next
  case (Cons v vs)
  have "sel (foldl g y (v # vs)) = sel (foldl g (g y v) vs)" by simp
  also have "\<dots> = foldl h (sel (g y v)) (named name vs)" by (rule Cons.IH)
  also have "\<dots> = foldl h (sel y) (named name [v] @ named name vs)" by (simp add: assms)
  finally show ?case by (simp add: named_Cons [of name v vs])
qed

lemma Version_Name_holds:
  "Version_Name (fst (store_struct Version_field v x))
     = foldl (\<lambda>s v. fst (store_string v s)) (Version_Name x) (named ''name'' [v])"
  by (rule store_struct_field) (auto simp: Version_field_def split_beta)

lemma Version_Protocol_holds:
  "Version_Protocol (fst (store_struct Version_field v x))
     = foldl (\<lambda>n v. fst (store_int v n)) (Version_Protocol x) (named ''protocol'' [v])"
  using names_apart(1)
  by (intro store_struct_field) (auto simp: Version_field_def split_beta)

lemma Sample_Name_holds:
  "Sample_Name (fst (store_struct Sample_field v x))
     = foldl (\<lambda>s v. fst (store_string v s)) (Sample_Name x) (named ''name'' [v])"
  by (rule store_struct_field) (auto simp: Sample_field_def split_beta)

lemma Sample_Id_holds:
  "Sample_Id (fst (store_struct Sample_field v x))
     = foldl (\<lambda>s v. fst (store_string v s)) (Sample_Id x) (named ''id'' [v])"
  using names_apart(2)
  by (intro store_struct_field) (auto simp: Sample_field_def split_beta)

lemma Players_Max_holds:
  "Players_Max (fst (store_struct Players_field v x))
     = foldl (\<lambda>n v. fst (store_int v n)) (Players_Max x) (named ''max'' [v])"
  by (rule store_struct_field) (auto simp: Players_field_def split_beta)

lemma Players_Online_holds:
  "Players_Online (fst (store_struct Players_field v x))
     = foldl (\<lambda>n v. fst (store_int v n)) (Players_Online x) (named ''online'' [v])"
  using names_apart(3)
  by (intro store_struct_field) (auto simp: Players_field_def split_beta)

lemma Players_Sample_holds:
  "Players_Sample (fst (store_struct Players_field v x))
     = foldl (\<lambda>s v. fst (store_samples v s)) (Players_Sample x) (named ''sample'' [v])"
  using names_apart(4,5)
  by (intro store_struct_field) (auto simp: Players_field_def split_beta)

lemma Version_holds:
  "Version (fst (store_struct (Response_field data) v x))
     = foldl (\<lambda>y v. fst (store_struct Version_field v y)) (Version x) (named ''version'' [v])"
  by (rule store_struct_field) (auto simp: Response_field_def split_beta)

lemma Players_holds:
  "Players (fst (store_struct (Response_field data) v x))
     = foldl (\<lambda>y v. fst (store_struct Players_field v y)) (Players x) (named ''players'' [v])"
  using names_apart(6)
  by (intro store_struct_field) (auto simp: Response_field_def split_beta)

lemma Description_keeps:
  "named ''description'' [v] = [] \<Longrightarrow>
     Description (fst (store_struct (Response_field data) v x)) = Description x"
proof (cases v)
  case (JObject ms)
  assume "named ''description'' [v] = []"
  with JObject have n: "\<not> list_ex (\<lambda>m. names_field (unquote (fst m)) ''description'') ms"
    by (auto simp: named_object names_def filter_empty_conv list_ex_iff)
  have "Description (fst (object_members (Response_field data) ms x)) = Description x"
    by (rule object_members_keeps [where name = "''description''", OF _ n])
      (auto simp: Response_field_def split_beta)
  with JObject show ?thesis by (simp add: store_struct_def)
qed (simp_all add: store_struct_def)

lemma Favicon_holds:
  "Favicon (fst (store_struct (Response_field data) v x))
     = foldl (\<lambda>s v. fst (store_string v s)) (Favicon x) (named ''favicon'' [v])"
  using names_apart(8,10,11)
  by (intro store_struct_field) (auto simp: Response_field_def split_beta)

subsection \<open>The elements of the slice\<close>

lemma array_elements_length:
  "length (fst (array_elements els arr)) = max (length els) (length arr)"
proof (induction els arbitrary: arr)
  case Nil
  show ?case by simp
next
  case (Cons e els)
  from Cons.IH [of "tl arr"] show ?case
    by (cases arr) (simp_all add: split_beta)
qed

lemma array_elements_nth:
  "i < length els \<Longrightarrow>
     fst (array_elements els arr) ! i
       = fst (store_struct Sample_field (els ! i) (if i < length arr then arr ! i else zero_Sample))"
proof (induction els arbitrary: arr i)
  case Nil
  then show ?case by simp
next
  case (Cons e els)
  show ?case
  proof (cases i)
    case 0
    then show ?thesis by (cases arr) (simp_all add: split_beta)
  next
    case (Suc j)
    with Cons.prems have "j < length els" by simp
    from Cons.IH [OF this, of "tl arr"] Suc show ?thesis
      by (cases arr) (simp_all add: split_beta)
  qed
qed

lemma array_elements_beyond:
  "length els \<le> i \<Longrightarrow> i < length arr \<Longrightarrow> fst (array_elements els arr) ! i = arr ! i"
proof (induction els arbitrary: arr i)
  case Nil
  show ?case by simp
next
  case (Cons e els)
  from Cons.prems obtain j where i: "i = Suc j" and j: "length els \<le> j" by (cases i) simp_all
  from Cons.prems obtain a as where arr: "arr = a # as" by (cases arr) simp_all
  with Cons.prems i have "j < length as" by simp
  from Cons.IH [OF j this] i arr show ?case
    by (simp add: split_beta)
qed

text \<open>
  A property of the element at an index of the slice's memory, one that the zero value
  has, stays when a value is stored into the slice, if storing the element that the
  value has at this index keeps it.
\<close>

lemma store_samples_keeps:
  assumes zero: "P zero_Sample"
    and el: "\<And>e x. e \<in> set (element_at i [v]) \<Longrightarrow> P x \<Longrightarrow> P (fst (store_struct Sample_field e x))"
    and inv: "i < length (backing s) \<Longrightarrow> P (backing s ! i)"
    and i: "i < length (backing (fst (store_samples v s)))"
  shows "P (backing (fst (store_samples v s)) ! i)"
proof (cases v)
  case (JArray els)
  show ?thesis
  proof (cases "els = []")
    case True
    with JArray i show ?thesis by (simp add: store_samples_def backing_def)
  next
    case False
    with JArray have b: "backing (fst (store_samples v s)) = fst (array_elements els (backing s))"
      by (simp add: store_samples_def backing_def split_beta)
    show ?thesis
    proof (cases "i < length els")
      case True
      let ?x = "if i < length (backing s) then backing s ! i else zero_Sample"
      from inv zero have "P ?x" by simp
      moreover from True JArray have "els ! i \<in> set (element_at i [v])"
        by (simp add: element_at_array)
      ultimately have "P (fst (store_struct Sample_field (els ! i) ?x))" by (rule el [rotated])
      with array_elements_nth [OF True, of "backing s"] b show ?thesis by simp
    next
      case False
      then have le: "length els \<le> i" by simp
      with i b array_elements_length [of els "backing s"] have "i < length (backing s)" by simp
      from inv [OF this] array_elements_beyond [OF le this] b show ?thesis by simp
    qed
  qed
next
  case JNull
  with i show ?thesis by (simp add: store_samples_def backing_def)
qed (use inv i in \<open>simp_all add: store_samples_def\<close>)

lemma foldl_store_samples_keeps:
  assumes zero: "P zero_Sample"
    and el: "\<And>e x. e \<in> set (element_at i vs) \<Longrightarrow> P x \<Longrightarrow> P (fst (store_struct Sample_field e x))"
    and inv: "i < length (backing s) \<Longrightarrow> P (backing s ! i)"
    and i: "i < length (backing (foldl (\<lambda>s v. fst (store_samples v s)) s vs))"
  shows "P (backing (foldl (\<lambda>s v. fst (store_samples v s)) s vs) ! i)"
  using el inv i
proof (induction vs arbitrary: s)
  case Nil
  then show ?case by simp
next
  case (Cons v vs)
  have 1: "P (fst (store_struct Sample_field e x))"
    if "e \<in> set (element_at i [v])" "P x" for e x
    using that Cons.prems(1) [of e x] element_at_Cons [of i v vs] by simp
  have 2: "P (fst (store_struct Sample_field e x))"
    if "e \<in> set (element_at i vs)" "P x" for e x
    using that Cons.prems(1) [of e x] element_at_Cons [of i v vs] by simp
  have 3: "P (backing (fst (store_samples v s)) ! i)"
    if "i < length (backing (fst (store_samples v s)))"
    using zero 1 Cons.prems(2) that by (rule store_samples_keeps)
  from Cons.prems(3) have 4: "i < length (backing (foldl (\<lambda>s v. fst (store_samples v s))
      (fst (store_samples v s)) vs))" by simp
  from Cons.IH [of "fst (store_samples v s)", OF 2 3 4] show ?case by simp
qed

lemma elems_nth:
  assumes "i < length (elems s)"
  shows "i < length (backing s)" "elems s ! i = backing s ! i"
  using assms by (cases s; simp add: elems_def backing_def)+

lemma Sample_Name_keeps:
  assumes "named ''name'' (element_at i vs) = []" "e \<in> set (element_at i vs)"
    "Sample_Name x = []"
  shows "Sample_Name (fst (store_struct Sample_field e x)) = []"
proof -
  from assms(2) obtain as bs where "element_at i vs = as @ e # bs"
    by (auto simp: in_set_conv_decomp)
  with assms(1) have "named ''name'' [e] = []"
    using named_append [of "''name''" as "e # bs"] named_Cons [of "''name''" e bs] by simp
  with assms(3) show ?thesis by (simp add: Sample_Name_holds)
qed

lemma Sample_Id_keeps:
  assumes "named ''id'' (element_at i vs) = []" "e \<in> set (element_at i vs)"
    "Sample_Id x = []"
  shows "Sample_Id (fst (store_struct Sample_field e x)) = []"
proof -
  from assms(2) obtain as bs where "element_at i vs = as @ e # bs"
    by (auto simp: in_set_conv_decomp)
  with assms(1) have "named ''id'' [e] = []"
    using named_append [of "''id''" as "e # bs"] named_Cons [of "''id''" e bs] by simp
  with assms(3) show ?thesis by (simp add: Sample_Id_holds)
qed

text \<open>
  What \<open>Unmarshal\<close> leaves in the fields of the zero \<open>Response\<close>: each field holds what
  the values that are present for it have stored, in their order, and the zero value when
  there is none.
\<close>

lemma Unmarshal_Response:
  assumes "checkValid payload = Some v"
  shows "fst (Unmarshal payload resp) = fst (store_struct (Response_field payload) v resp)"
  using assms by (simp add: Unmarshal_def split_beta)

lemma Unmarshal_holds:
  assumes "checkValid payload = Some v"
  shows "Version_Name (Version (fst (Unmarshal payload resp)))
           = foldl (\<lambda>s v. fst (store_string v s)) (Version_Name (Version resp))
               (named ''name'' (named ''version'' [v]))"
    and "Version_Protocol (Version (fst (Unmarshal payload resp)))
           = foldl (\<lambda>n v. fst (store_int v n)) (Version_Protocol (Version resp))
               (named ''protocol'' (named ''version'' [v]))"
    and "Players_Max (Players (fst (Unmarshal payload resp)))
           = foldl (\<lambda>n v. fst (store_int v n)) (Players_Max (Players resp))
               (named ''max'' (named ''players'' [v]))"
    and "Players_Online (Players (fst (Unmarshal payload resp)))
           = foldl (\<lambda>n v. fst (store_int v n)) (Players_Online (Players resp))
               (named ''online'' (named ''players'' [v]))"
    and "Players_Sample (Players (fst (Unmarshal payload resp)))
           = foldl (\<lambda>s v. fst (store_samples v s)) (Players_Sample (Players resp))
               (named ''sample'' (named ''players'' [v]))"
    and "Favicon (fst (Unmarshal payload resp))
           = foldl (\<lambda>s v. fst (store_string v s)) (Favicon resp) (named ''favicon'' [v])"
proof -
  note u = Unmarshal_Response [OF assms]
  show "Version_Name (Version (fst (Unmarshal payload resp)))
           = foldl (\<lambda>s v. fst (store_string v s)) (Version_Name (Version resp))
               (named ''name'' (named ''version'' [v]))"
    unfolding u Version_holds
    by (rule foldl_named) (rule Version_Name_holds)
  show "Version_Protocol (Version (fst (Unmarshal payload resp)))
           = foldl (\<lambda>n v. fst (store_int v n)) (Version_Protocol (Version resp))
               (named ''protocol'' (named ''version'' [v]))"
    unfolding u Version_holds
    by (rule foldl_named) (rule Version_Protocol_holds)
  show "Players_Max (Players (fst (Unmarshal payload resp)))
           = foldl (\<lambda>n v. fst (store_int v n)) (Players_Max (Players resp))
               (named ''max'' (named ''players'' [v]))"
    unfolding u Players_holds
    by (rule foldl_named) (rule Players_Max_holds)
  show "Players_Online (Players (fst (Unmarshal payload resp)))
           = foldl (\<lambda>n v. fst (store_int v n)) (Players_Online (Players resp))
               (named ''online'' (named ''players'' [v]))"
    unfolding u Players_holds
    by (rule foldl_named) (rule Players_Online_holds)
  show "Players_Sample (Players (fst (Unmarshal payload resp)))
           = foldl (\<lambda>s v. fst (store_samples v s)) (Players_Sample (Players resp))
               (named ''sample'' (named ''players'' [v]))"
    unfolding u Players_holds
    by (rule foldl_named) (rule Players_Sample_holds)
  show "Favicon (fst (Unmarshal payload resp))
           = foldl (\<lambda>s v. fst (store_string v s)) (Favicon resp) (named ''favicon'' [v])"
    unfolding u by (rule Favicon_holds)
qed

lemma Unmarshal_sample_elements:
  assumes v: "checkValid payload = Some v"
    and i: "i < length (elems (Players_Sample (Players (fst (Unmarshal payload zero_Response)))))"
  shows "named ''name'' (element_at i (named ''sample'' (named ''players'' [v]))) = [] \<Longrightarrow>
           Sample_Name (elems (Players_Sample (Players (fst (Unmarshal payload zero_Response)))) ! i) = []"
    and "named ''id'' (element_at i (named ''sample'' (named ''players'' [v]))) = [] \<Longrightarrow>
           Sample_Id (elems (Players_Sample (Players (fst (Unmarshal payload zero_Response)))) ! i) = []"
proof -
  let ?vs = "named ''sample'' (named ''players'' [v])"
  let ?s = "Players_Sample (Players (fst (Unmarshal payload zero_Response)))"
  have s: "?s = foldl (\<lambda>s v. fst (store_samples v s)) nil_slice ?vs"
    using Unmarshal_holds(5) [OF v, of zero_Response] by (simp add: zero_Response_def)
  from elems_nth [OF i] have b: "i < length (backing ?s)" and e: "elems ?s ! i = backing ?s ! i"
    by simp_all
  {
    assume n: "named ''name'' (element_at i ?vs) = []"
    have "Sample_Name (backing (foldl (\<lambda>s v. fst (store_samples v s)) nil_slice ?vs) ! i) = []"
    proof (rule foldl_store_samples_keeps [where P = "\<lambda>x. Sample_Name x = []"])
      show "Sample_Name zero_Sample = []" by (simp add: zero_Sample_def)
      show "Sample_Name (fst (store_struct Sample_field e x)) = []"
        if "e \<in> set (element_at i ?vs)" "Sample_Name x = []" for e x
        using n that by (rule Sample_Name_keeps)
      show "Sample_Name (backing nil_slice ! i) = []" if "i < length (backing nil_slice)"
        using that by (simp add: backing_def)
      from b s show "i < length (backing (foldl (\<lambda>s v. fst (store_samples v s)) nil_slice ?vs))"
        by simp
    qed
    with s e show "Sample_Name (elems ?s ! i) = []" by simp
  }
  {
    assume n: "named ''id'' (element_at i ?vs) = []"
    have "Sample_Id (backing (foldl (\<lambda>s v. fst (store_samples v s)) nil_slice ?vs) ! i) = []"
    proof (rule foldl_store_samples_keeps [where P = "\<lambda>x. Sample_Id x = []"])
      show "Sample_Id zero_Sample = []" by (simp add: zero_Sample_def)
      show "Sample_Id (fst (store_struct Sample_field e x)) = []"
        if "e \<in> set (element_at i ?vs)" "Sample_Id x = []" for e x
        using n that by (rule Sample_Id_keeps)
      show "Sample_Id (backing nil_slice ! i) = []" if "i < length (backing nil_slice)"
        using that by (simp add: backing_def)
      from b s show "i < length (backing (foldl (\<lambda>s v. fst (store_samples v s)) nil_slice ?vs))"
        by simp
    qed
    with s e show "Sample_Id (elems ?s ! i) = []" by simp
  }
qed

text \<open>
  Claim C10, amended. \<^verbatim>\<open>Ping\<close> returns what \<open>Unmarshal\<close> makes of the payload and the zero
  \<open>Response\<close>. A payload that is not JSON gives the syntax error and the zero
  \<open>Response\<close>. For a payload that is a JSON value \<open>v\<close>:

  \<^item> there is an error, the \<^verbatim>\<open>UnmarshalTypeError\<close>, exactly when \<open>v\<close> has not the shape of
    the \<open>Response\<close>: when it is neither an object nor \<^verbatim>\<open>null\<close>, or when a member that is
    present has not the shape of the field it names; no omission is an error;

  \<^item> every field for which no value is present holds its zero value, at each level: the
    name and the protocol of the version, the numbers and the sample of the players, the
    description, the favicon, and in each element of the sample the name and the ID
    (for an element, the values present are those at its index in the arrays that are
    present for the sample, as the decoder stores an array into the elements that the
    slice had before);

  \<^item> and a value of the shape of the \<open>Response\<close> in which no value is present for any
    field, as \<^verbatim>\<open>{}\<close> and \<^verbatim>\<open>null\<close>, gives the zero \<open>Response\<close> and no error.
\<close>

theorem Unmarshal_omitted_fields:
  "(checkValid payload = None \<longrightarrow>
      Unmarshal payload zero_Response = (zero_Response, Some SyntaxError))
   \<and> (checkValid payload = Some v \<longrightarrow>
        snd (Unmarshal payload zero_Response)
          = (if Response_shape v then None else Some UnmarshalTypeError)
      \<and> (named ''name'' (named ''version'' [v]) = [] \<longrightarrow>
           Version_Name (Version (fst (Unmarshal payload zero_Response))) = [])
      \<and> (named ''protocol'' (named ''version'' [v]) = [] \<longrightarrow>
           Version_Protocol (Version (fst (Unmarshal payload zero_Response))) = 0)
      \<and> (named ''max'' (named ''players'' [v]) = [] \<longrightarrow>
           Players_Max (Players (fst (Unmarshal payload zero_Response))) = 0)
      \<and> (named ''online'' (named ''players'' [v]) = [] \<longrightarrow>
           Players_Online (Players (fst (Unmarshal payload zero_Response))) = 0)
      \<and> (named ''sample'' (named ''players'' [v]) = [] \<longrightarrow>
           Players_Sample (Players (fst (Unmarshal payload zero_Response))) = nil_slice)
      \<and> (named ''description'' [v] = [] \<longrightarrow>
           Description (fst (Unmarshal payload zero_Response)) = [])
      \<and> (named ''favicon'' [v] = [] \<longrightarrow>
           Favicon (fst (Unmarshal payload zero_Response)) = [])
      \<and> (i < length (elems (Players_Sample (Players (fst (Unmarshal payload zero_Response))))) \<longrightarrow>
           (named ''name'' (element_at i (named ''sample'' (named ''players'' [v]))) = [] \<longrightarrow>
              Sample_Name (elems (Players_Sample (Players (fst (Unmarshal payload zero_Response)))) ! i)
                = [])
         \<and> (named ''id'' (element_at i (named ''sample'' (named ''players'' [v]))) = [] \<longrightarrow>
              Sample_Id (elems (Players_Sample (Players (fst (Unmarshal payload zero_Response)))) ! i)
                = []))
      \<and> (Response_shape v \<and> named ''version'' [v] = [] \<and> named ''players'' [v] = []
            \<and> named ''description'' [v] = [] \<and> named ''favicon'' [v] = [] \<longrightarrow>
           Unmarshal payload zero_Response = (zero_Response, None)))"
proof -
  let ?r = "fst (Unmarshal payload zero_Response)"
  have syn: "Unmarshal payload zero_Response = (zero_Response, Some SyntaxError)"
    if "checkValid payload = None"
    using that by (simp add: Unmarshal_def)
  {
    assume v: "checkValid payload = Some v"
    note h = Unmarshal_holds [OF v, of zero_Response]
    have e: "snd (Unmarshal payload zero_Response)
        = (if Response_shape v then None else Some UnmarshalTypeError)"
      using v by (rule Unmarshal_fits)
    have vn: "Version_Name (Version ?r) = []" if "named ''name'' (named ''version'' [v]) = []"
      using h(1) that by (simp add: zero_Response_def)
    have vp: "Version_Protocol (Version ?r) = 0" if "named ''protocol'' (named ''version'' [v]) = []"
      using h(2) that by (simp add: zero_Response_def)
    have pm: "Players_Max (Players ?r) = 0" if "named ''max'' (named ''players'' [v]) = []"
      using h(3) that by (simp add: zero_Response_def)
    have po: "Players_Online (Players ?r) = 0" if "named ''online'' (named ''players'' [v]) = []"
      using h(4) that by (simp add: zero_Response_def)
    have ps: "Players_Sample (Players ?r) = nil_slice"
      if "named ''sample'' (named ''players'' [v]) = []"
      using h(5) that by (simp add: zero_Response_def)
    have d: "Description ?r = []" if "named ''description'' [v] = []"
      using Description_keeps [OF that, of payload zero_Response] Unmarshal_Response [OF v]
      by (simp add: zero_Response_def)
    have f: "Favicon ?r = []" if "named ''favicon'' [v] = []"
      using h(6) that by (simp add: zero_Response_def)
    have sn: "Sample_Name (elems (Players_Sample (Players ?r)) ! i) = []"
      if "i < length (elems (Players_Sample (Players ?r)))"
        "named ''name'' (element_at i (named ''sample'' (named ''players'' [v]))) = []"
      using Unmarshal_sample_elements(1) [OF v that] .
    have si: "Sample_Id (elems (Players_Sample (Players ?r)) ! i) = []"
      if "i < length (elems (Players_Sample (Players ?r)))"
        "named ''id'' (element_at i (named ''sample'' (named ''players'' [v]))) = []"
      using Unmarshal_sample_elements(2) [OF v that] .
    have z: "Unmarshal payload zero_Response = (zero_Response, None)"
      if s: "Response_shape v" and n: "named ''version'' [v] = []" "named ''players'' [v] = []"
        "named ''description'' [v] = []" "named ''favicon'' [v] = []"
    proof -
      from n(1) have "Version_Name (Version ?r) = []" "Version_Protocol (Version ?r) = 0"
        by (simp_all add: vn vp named_Nil)
      then have 1: "Version ?r = Version zero_Response"
        by (cases "Version ?r") (simp add: zero_Response_def)
      from n(2) have "Players_Max (Players ?r) = 0" "Players_Online (Players ?r) = 0"
        "Players_Sample (Players ?r) = nil_slice"
        by (simp_all add: pm po ps named_Nil)
      then have 2: "Players ?r = Players zero_Response"
        by (cases "Players ?r") (simp add: zero_Response_def)
      from d [OF n(3)] f [OF n(4)]
      have 3: "Description ?r = Description zero_Response" "Favicon ?r = Favicon zero_Response"
        by (simp_all add: zero_Response_def)
      from 1 2 3 have "?r = zero_Response"
        by (cases ?r; cases zero_Response) simp
      with e s show ?thesis
        by (cases "Unmarshal payload zero_Response") simp
    qed
    note e vn vp pm po ps d f sn si z
  }
  with syn show ?thesis
    by blast
qed

subsection \<open>Examples\<close>

lemma unquote_plain: "list_all (\<lambda>c. c < 0x80 \<and> c \<noteq> 0x5C) s \<Longrightarrow> unquote s = s"
  by (induction s) (simp_all add: unquote.simps)

lemma checkValid_open_brace: "checkValid [0x7B] = None"
  by (simp add: scan_eval)

lemma checkValid_null: "checkValid [0x6E, 0x75, 0x6C, 0x6C] = Some JNull"
  by (simp add: scan_eval)

lemma checkValid_partial_payload:
  "checkValid partial_payload =
     Some (JObject
       [(string_bytes ''version'', 11, 23,
           JObject [(string_bytes ''name'', 19, 22, JString (string_bytes ''x''))]),
        (string_bytes ''players'', 34, 57,
           JObject [(string_bytes ''sample'', 44, 56,
             JArray [JObject [(string_bytes ''id'', 51, 54, JString (string_bytes ''1''))]])])])"
  by (simp add: partial_payload_def scan_eval string_bytes_def)

lemma checkValid_misfit_payload:
  "checkValid misfit_payload = Some (JObject [(string_bytes ''favicon'', 11, 12, JNumber [0x35])])"
  by (simp add: misfit_payload_def scan_eval string_bytes_def)

theorem Unmarshal_omitted_fields_witness:
  "Unmarshal [0x7B] zero_Response = (zero_Response, Some SyntaxError)
   \<and> Unmarshal [0x6E, 0x75, 0x6C, 0x6C] zero_Response = (zero_Response, None)
   \<and> Unmarshal [0x7B, 0x7D] zero_Response = (zero_Response, None)
   \<and> snd (Unmarshal misfit_payload zero_Response) = Some UnmarshalTypeError
   \<and> snd (Unmarshal partial_payload zero_Response) = None
   \<and> Version_Protocol (Version (fst (Unmarshal partial_payload zero_Response))) = 0
   \<and> Players_Max (Players (fst (Unmarshal partial_payload zero_Response))) = 0
   \<and> Players_Online (Players (fst (Unmarshal partial_payload zero_Response))) = 0
   \<and> Description (fst (Unmarshal partial_payload zero_Response)) = []
   \<and> Favicon (fst (Unmarshal partial_payload zero_Response)) = []
   \<and> length (elems (Players_Sample (Players (fst (Unmarshal partial_payload zero_Response))))) = 1
   \<and> Sample_Name (elems (Players_Sample (Players (fst (Unmarshal partial_payload zero_Response)))) ! 0)
        = []"
proof -
  let ?v = "JObject
       [(string_bytes ''version'', 11, 23,
           JObject [(string_bytes ''name'', 19, 22, JString (string_bytes ''x''))]),
        (string_bytes ''players'', 34, 57,
           JObject [(string_bytes ''sample'', 44, 56,
             JArray [JObject [(string_bytes ''id'', 51, 54, JString (string_bytes ''1''))]])])]"
  let ?w = "JObject [(string_bytes ''favicon'', 11, 12, JNumber [0x35])]"
  note ev = named_def object_of_def array_of_def element_at_def member_value_def names_def
    names_field_def unquote_plain string_bytes_def
  note sh = Response_shape_def struct_shape_def Response_member_shape_def
    Version_member_shape_def Players_member_shape_def Sample_member_shape_def samples_shape_def
    string_shape_def int_shape_def
  note a = Unmarshal_omitted_fields [of "[0x7B]" JNull 0]
  note b = Unmarshal_omitted_fields [of "[0x6E, 0x75, 0x6C, 0x6C]" JNull 0]
  note c = Unmarshal_omitted_fields [of "[0x7B, 0x7D]" "JObject []" 0]
  note d = Unmarshal_omitted_fields [of misfit_payload ?w 0]
  note p = Unmarshal_omitted_fields [of partial_payload ?v 0]
  from a checkValid_open_brace
  have 1: "Unmarshal [0x7B] zero_Response = (zero_Response, Some SyntaxError)" by blast
  have "Response_shape JNull" "named name [JNull] = []" for name
    by (simp_all add: sh ev)
  with b checkValid_null
  have 2: "Unmarshal [0x6E, 0x75, 0x6C, 0x6C] zero_Response = (zero_Response, None)" by blast
  have "Response_shape (JObject [])" "named name [JObject []] = []" for name
    by (simp_all add: sh ev)
  with c checkValid_empty_object
  have 3: "Unmarshal [0x7B, 0x7D] zero_Response = (zero_Response, None)" by blast
  have "\<not> Response_shape ?w"
    by (simp add: sh ev)
  with d checkValid_misfit_payload
  have 4: "snd (Unmarshal misfit_payload zero_Response) = Some UnmarshalTypeError" by simp
  have s: "Response_shape ?v"
    by (simp add: sh ev)
  with p checkValid_partial_payload
  have 5: "snd (Unmarshal partial_payload zero_Response) = None" by simp
  have n: "named ''protocol'' (named ''version'' [?v]) = []"
    "named ''max'' (named ''players'' [?v]) = []"
    "named ''online'' (named ''players'' [?v]) = []"
    "named ''description'' [?v] = []"
    "named ''favicon'' [?v] = []"
    "named ''name'' (element_at 0 (named ''sample'' (named ''players'' [?v]))) = []"
    by (simp_all add: ev)
  from p checkValid_partial_payload n(1)
  have 6: "Version_Protocol (Version (fst (Unmarshal partial_payload zero_Response))) = 0"
    by blast
  from p checkValid_partial_payload n(2)
  have 7: "Players_Max (Players (fst (Unmarshal partial_payload zero_Response))) = 0"
    by blast
  from p checkValid_partial_payload n(3)
  have 8: "Players_Online (Players (fst (Unmarshal partial_payload zero_Response))) = 0"
    by blast
  from p checkValid_partial_payload n(4)
  have 9: "Description (fst (Unmarshal partial_payload zero_Response)) = []"
    by blast
  from p checkValid_partial_payload n(5)
  have 10: "Favicon (fst (Unmarshal partial_payload zero_Response)) = []"
    by blast
  have "named ''sample'' (named ''players'' [?v])
      = [JArray [JObject [(string_bytes ''id'', 51, 54, JString (string_bytes ''1''))]]]"
    by (simp add: ev)
  with Unmarshal_holds(5) [OF checkValid_partial_payload, of zero_Response]
  have "Players_Sample (Players (fst (Unmarshal partial_payload zero_Response)))
      = Slice [\<lparr>Sample_Name = [], Sample_Id = string_bytes ''1''\<rparr>] 1"
    by (simp add: zero_Response_def store_samples_def backing_def store_struct_def
        Sample_field_def store_string_def zero_Sample_def names_field_def unquote_plain
        string_bytes_def)
  then have 11: "length (elems (Players_Sample (Players (fst (Unmarshal partial_payload
      zero_Response))))) = 1"
    by (simp add: elems_def)
  then have "0 < length (elems (Players_Sample (Players (fst (Unmarshal partial_payload
      zero_Response)))))" by simp
  with p checkValid_partial_payload n(6)
  have 12: "Sample_Name (elems (Players_Sample (Players (fst (Unmarshal partial_payload
      zero_Response)))) ! 0) = []"
    by blast
  from 1 2 3 4 5 6 7 8 9 10 11 12 show ?thesis by blast
qed

text \<open>
  The counterexample to claim C10 as it is stated: the payload \<^verbatim>\<open>[]\<close> is a valid JSON
  value with none of the expected fields, no field in it has the wrong shape, and
  \<^verbatim>\<open>Ping\<close> fails on it with the \<^verbatim>\<open>UnmarshalTypeError\<close>.
\<close>

theorem Ping_fails_on_JSON_array:
  "checkValid [0x5B, 0x5D] = Some (JArray [])
   \<and> returned (Ping ''x'' 25565 0 5000000000 array_payload_network)
       = Inr (zero_Response, Some UnmarshalTypeError)"
proof -
  have "Ping_readPayload (NewReader (snd (conn_Write requestPacket
      (snd (conn_Write [0x07, 0x00, 0x00, 0x01, 0x78, 0x63, 0xDD, 0x01]
         (example_conn [[0x04, 0x00, 0x02, 0x5B, 0x5D]]))))))
    = Inr [0x5B, 0x5D]"
    by (simp add: conn_Write_def payload_eval reader_eval)
  moreover have "Unmarshal [0x5B, 0x5D] zero_Response = (zero_Response, Some UnmarshalTypeError)"
    by (simp add: Unmarshal_def checkValid_empty_array store_struct_def)
  ultimately have "returned (Ping ''x'' 25565 0 5000000000 array_payload_network)
      = Inr (zero_Response, Some UnmarshalTypeError)"
    by (simp add: Ping_def array_payload_network_def makeHandshakePacket_example Let_def)
  with checkValid_empty_array show ?thesis by simp
qed

text \<open>
  Claim C9. The Request packet is the two bytes \<^verbatim>\<open>01 00\<close>, in the variable of the
  current file and from the function of the older one; and whatever the address, the
  port, the protocol version, the timeout and the network are, a call of \<^verbatim>\<open>Ping\<close> that
  writes to its connection writes two slices, the second of which is \<^verbatim>\<open>01 00\<close>.
\<close>

theorem requestPacket_constant:
  "requestPacket = [0x01, 0x00]
   \<and> makeRequestPacket () = requestPacket
   \<and> (case DialTimeout net (address @ '':'' @ Itoa (uint port)) timeout of
         Inl err \<Rightarrow> connection (Ping address port protocolVersion timeout net) = None
       | Inr conn \<Rightarrow>
           (\<exists>c. connection (Ping address port protocolVersion timeout net) = Some c
              \<and> (written c = written conn
                 \<or> (\<exists>handshake. written c = written conn @ [handshake, [0x01, 0x00]]))))"
  using Ping_written [where net = net and address = address and port = port
      and timeout = timeout and protocolVersion = protocolVersion]
  by (auto simp: requestPacket_def makeRequestPacket_def split: sum.splits)

end
